theory Spec2Isabelle
  imports Main "HOL-Library.Sublist"
begin

section \<open>JavaScript strings\<close>

text \<open>
  A JavaScript string is a sequence of UTF-16 code units; a code unit is modelled by its
  number. \<open>cu\<close> turns an ASCII literal into such a sequence.
\<close>

type_synonym jsstring = "nat list"

definition cu :: "string \<Rightarrow> jsstring" where
  "cu s = map of_char s"

text \<open>
  White space as \<^verbatim>\<open>\s\<close> and \<^verbatim>\<open>String.prototype.trim\<close> see it: TAB, LF, VT, FF, CR,
  SPACE, NBSP, U+1680, U+2000..U+200A, U+2028, U+2029, U+202F, U+205F, U+3000, U+FEFF.
\<close>

definition isWS :: "nat \<Rightarrow> bool" where
  "isWS c = (c = 9 \<or> c = 10 \<or> c = 11 \<or> c = 12 \<or> c = 13 \<or> c = 32 \<or> c = 160
     \<or> c = 5760 \<or> (8192 \<le> c \<and> c \<le> 8202) \<or> c = 8232 \<or> c = 8233 \<or> c = 8239
     \<or> c = 8287 \<or> c = 12288 \<or> c = 65279)"

text \<open>The line terminators, which \<^verbatim>\<open>.\<close> does not match: LF, CR, U+2028, U+2029.\<close>

definition isLineTerminator :: "nat \<Rightarrow> bool" where
  "isLineTerminator c = (c = 10 \<or> c = 13 \<or> c = 8232 \<or> c = 8233)"

definition isUpper :: "nat \<Rightarrow> bool" where
  "isUpper c = (65 \<le> c \<and> c \<le> 90)"

definition isDigit :: "nat \<Rightarrow> bool" where
  "isDigit c = (48 \<le> c \<and> c \<le> 57)"

text \<open>
  Case folding of a pattern with the \<^verbatim>\<open>i\<close> flag (and no \<^verbatim>\<open>u\<close> flag): a code unit is
  compared through its upper-case form, and a code unit from 128 on never folds into
  ASCII. The patterns below only name ASCII characters, so folding \<open>a..z\<close> is all of it.
\<close>

definition canon :: "nat \<Rightarrow> nat" where
  "canon c = (if 97 \<le> c \<and> c \<le> 122 then c - 32 else c)"

definition trimStart :: "jsstring \<Rightarrow> jsstring" where
  "trimStart s = dropWhile isWS s"

definition trimEnd :: "jsstring \<Rightarrow> jsstring" where
  "trimEnd s = rev (dropWhile isWS (rev s))"

definition trim :: "jsstring \<Rightarrow> jsstring" where
  "trim s = trimEnd (trimStart s)"

text \<open>\<^verbatim>\<open>s.endsWith(c)\<close> for a one-character string \<open>c\<close>.\<close>

definition endsWith :: "jsstring \<Rightarrow> nat \<Rightarrow> bool" where
  "endsWith s c = (s \<noteq> [] \<and> last s = c)"

text \<open>\<^verbatim>\<open>s.startsWith(c)\<close> for a one-character string \<open>c\<close>.\<close>

definition startsWith :: "jsstring \<Rightarrow> nat \<Rightarrow> bool" where
  "startsWith s c = (s \<noteq> [] \<and> hd s = c)"

text \<open>\<^verbatim>\<open>text.split(sep)\<close> for a one-character separator: the empty text gives one empty line.\<close>

fun splitOn :: "nat \<Rightarrow> jsstring \<Rightarrow> jsstring list" where
  "splitOn sep [] = [[]]"
| "splitOn sep (c # cs) =
     (if c = sep then [] # splitOn sep cs
      else (case splitOn sep cs of
              [] \<Rightarrow> [[c]]
            | l # ls \<Rightarrow> (c # l) # ls))"

text \<open>\<^verbatim>\<open>parts.join(sep)\<close>.\<close>

fun joinWith :: "jsstring \<Rightarrow> jsstring list \<Rightarrow> jsstring" where
  "joinWith sep [] = []"
| "joinWith sep [p] = p"
| "joinWith sep (p # q # ps) = p @ sep @ joinWith sep (q # ps)"

section \<open>Regular expressions\<close>

text \<open>
  The patterns of the plugin use no back-reference and no look-around, so
  \<^verbatim>\<open>pattern.test(s)\<close> is membership of \<open>s\<close> in a regular language. A pattern is a term of
  \<open>rx\<close>; \<open>matches\<close> decides whether the whole string matches, by derivatives. A pattern
  that is anchored at the start only is followed by \<open>Star anyChar\<close>.
\<close>

datatype rx = Nul | Eps | Sym "nat \<Rightarrow> bool" | Alt rx rx | Seq rx rx | Star rx

primrec nullable :: "rx \<Rightarrow> bool" where
  "nullable Nul = False"
| "nullable Eps = True"
| "nullable (Sym P) = False"
| "nullable (Alt r s) = (nullable r \<or> nullable s)"
| "nullable (Seq r s) = (nullable r \<and> nullable s)"
| "nullable (Star r) = True"

primrec deriv :: "nat \<Rightarrow> rx \<Rightarrow> rx" where
  "deriv c Nul = Nul"
| "deriv c Eps = Nul"
| "deriv c (Sym P) = (if P c then Eps else Nul)"
| "deriv c (Alt r s) = Alt (deriv c r) (deriv c s)"
| "deriv c (Seq r s) =
     (if nullable r then Alt (Seq (deriv c r) s) (deriv c s) else Seq (deriv c r) s)"
| "deriv c (Star r) = Seq (deriv c r) (Star r)"

primrec matches :: "rx \<Rightarrow> jsstring \<Rightarrow> bool" where
  "matches r [] = nullable r"
| "matches r (c # cs) = matches (deriv c r) cs"

text \<open>Pattern atoms.\<close>

definition lit :: "char \<Rightarrow> rx" where
  "lit ch = Sym (\<lambda>c. c = of_char ch)"

definition litCI :: "char \<Rightarrow> rx" where
  "litCI ch = Sym (\<lambda>c. canon c = of_char ch)"

definition notLit :: "char \<Rightarrow> rx" where
  "notLit ch = Sym (\<lambda>c. c \<noteq> of_char ch)"

definition ws :: rx where
  "ws = Sym isWS"

definition dot :: rx where
  "dot = Sym (\<lambda>c. \<not> isLineTerminator c)"

definition anyChar :: rx where
  "anyChar = Sym (\<lambda>c. True)"

primrec strCI :: "string \<Rightarrow> rx" where
  "strCI [] = Eps"
| "strCI (ch # chs) = Seq (litCI ch) (strCI chs)"

definition opt :: "rx \<Rightarrow> rx" where
  "opt r = Alt r Eps"

definition rxPlus :: "rx \<Rightarrow> rx" where
  "rxPlus r = Seq r (Star r)"

text \<open>\<^verbatim>\<open>r{0,n}\<close>.\<close>

primrec upTo :: "nat \<Rightarrow> rx \<Rightarrow> rx" where
  "upTo 0 r = Eps"
| "upTo (Suc n) r = opt (Seq r (upTo n r))"

text \<open>
  \<^verbatim>\<open>sceneHeading: /^(?:INT\.|EXT\.|EST\.|INT\/EXT\.|I\/E\.|I\/X\.).*|^\.[^.].*$/i\<close>.
  The first alternative has no \<^verbatim>\<open>$\<close>: anything may follow it.
\<close>

definition sceneHeadingRx :: rx where
  "sceneHeadingRx =
     Alt (Seq (Seq (Alt (strCI ''INT.'') (Alt (strCI ''EXT.'') (Alt (strCI ''EST.'')
                   (Alt (strCI ''INT/EXT.'') (Alt (strCI ''I/E.'') (strCI ''I/X.''))))))
               (Star dot))
              (Star anyChar))
         (Seq (lit CHR ''.'') (Seq (notLit CHR ''.'') (Star dot)))"

text \<open>
  \<^verbatim>\<open>transition: /^(?:[A-Z\s]+TO:|FADE TO BLACK\.|FADE OUT\.|CUT TO BLACK\.|>.*[^<])$/i\<close>.
\<close>

definition transitionRx :: rx where
  "transitionRx =
     Alt (Seq (rxPlus (Sym (\<lambda>c. isUpper (canon c) \<or> isWS c))) (strCI ''TO:''))
    (Alt (strCI ''FADE TO BLACK.'')
    (Alt (strCI ''FADE OUT.'')
    (Alt (strCI ''CUT TO BLACK.'')
         (Seq (lit CHR ''>'') (Seq (Star dot) (notLit CHR ''<''))))))"

text \<open>\<^verbatim>\<open>centered: /^>\s*.*\s*<$/\<close>.\<close>

definition centeredRx :: rx where
  "centeredRx =
     Seq (lit CHR ''>'') (Seq (Star ws) (Seq (Star dot) (Seq (Star ws) (lit CHR ''<''))))"

text \<open>\<^verbatim>\<open>character: /^[\s]*[A-Z0-9\s]+(?: \([^)]+\))?\s*(?:\^)?$/\<close>.\<close>

definition characterRx :: rx where
  "characterRx =
     Seq (Star ws)
    (Seq (rxPlus (Sym (\<lambda>c. isUpper c \<or> isDigit c \<or> isWS c)))
    (Seq (opt (Seq (lit CHR '' '') (Seq (lit CHR ''('')
                 (Seq (rxPlus (notLit CHR '')'')) (lit CHR '')'')))))
    (Seq (Star ws) (opt (lit CHR ''^'')))))"

text \<open>\<^verbatim>\<open>parenthetical: /^\s*\([^)]+\)\s*$/\<close>.\<close>

definition parentheticalRx :: rx where
  "parentheticalRx =
     Seq (Star ws) (Seq (lit CHR ''('')
    (Seq (rxPlus (notLit CHR '')'')) (Seq (lit CHR '')'') (Star ws))))"

text \<open>\<^verbatim>\<open>/^#{1,6}\s/\<close>, anchored at the start only.\<close>

definition sectionRx :: rx where
  "sectionRx =
     Seq (lit CHR ''#'') (Seq (upTo 5 (lit CHR ''#'')) (Seq ws (Star anyChar)))"

section \<open>The preview classifier: \<^verbatim>\<open>parseFountain\<close>\<close>

text \<open>
  The \<^verbatim>\<open>type\<close> field of a line is one of a fixed set of strings; \<open>typeName\<close> gives the
  string. \<open>DialogueBlank\<close> is \<^verbatim>\<open>'dialogue-blank'\<close>, the dialogue continuation line. The
  level of a section heading is 1, 2 or 3, so its name ends with one digit.
\<close>

datatype LineType =
    SceneHeading | Transition | Centered | Character | Parenthetical | Dialogue
  | DialogueBlank | Action | SectionHeading nat | Empty

fun typeName :: "LineType \<Rightarrow> jsstring" where
  "typeName SceneHeading = cu ''scene-heading''"
| "typeName Transition = cu ''transition''"
| "typeName Centered = cu ''centered''"
| "typeName Character = cu ''character''"
| "typeName Parenthetical = cu ''parenthetical''"
| "typeName Dialogue = cu ''dialogue''"
| "typeName DialogueBlank = cu ''dialogue-blank''"
| "typeName Action = cu ''action''"
| "typeName (SectionHeading level) = cu ''section-heading-'' @ [48 + level]"
| "typeName Empty = cu ''empty''"

record FountainLine =
  type :: LineType
  lineText :: jsstring
  rawText :: jsstring

text \<open>The four flags that \<^verbatim>\<open>parseFountain\<close> carries from one line to the next.\<close>

record ParseState =
  lastLineWasCharacter :: bool
  lastLineWasParenthetical :: bool
  lastLineWasDialogue :: bool
  lastLineWasEmpty :: bool

definition initialState :: ParseState where
  "initialState = \<lparr>lastLineWasCharacter = False, lastLineWasParenthetical = False,
     lastLineWasDialogue = False, lastLineWasEmpty = True\<rparr>"

definition inDialogueContext :: "ParseState \<Rightarrow> bool" where
  "inDialogueContext st =
     (lastLineWasCharacter st \<or> lastLineWasParenthetical st \<or> lastLineWasDialogue st)"

text \<open>Setting the three dialogue flags, as every branch of the loop body does.\<close>

definition setFlags :: "bool \<Rightarrow> bool \<Rightarrow> bool \<Rightarrow> ParseState \<Rightarrow> ParseState" where
  "setFlags c p d st = st\<lparr>lastLineWasCharacter := c, lastLineWasParenthetical := p,
     lastLineWasDialogue := d\<rparr>"

text \<open>
  \<^verbatim>\<open>Math.min(levelMatch ? levelMatch[1].length : 1, 3)\<close> with
  \<^verbatim>\<open>levelMatch = trimmed.match(/^(#+)/)\<close>.
\<close>

definition sectionLevel :: "jsstring \<Rightarrow> nat" where
  "sectionLevel trimmed =
     (let hashes = takeWhile (\<lambda>c. c = 35) trimmed
      in min (if hashes = [] then 1 else length hashes) 3)"

text \<open>The type of a non-blank line and the flags after it (the \<^verbatim>\<open>if\<close> chain of the loop).\<close>

definition classifyText :: "ParseState \<Rightarrow> jsstring \<Rightarrow> jsstring \<Rightarrow> LineType \<times> ParseState" where
  "classifyText st rawLine trimmed =
     (if matches sceneHeadingRx trimmed then (SceneHeading, setFlags False False False st)
      else if matches centeredRx trimmed then (Centered, setFlags False False False st)
      else if matches sectionRx trimmed then
        (SectionHeading (sectionLevel trimmed), setFlags False False False st)
      else if matches transitionRx trimmed then (Transition, setFlags False False False st)
      else if lastLineWasEmpty st \<and> matches characterRx rawLine
              \<and> \<not> matches sceneHeadingRx trimmed \<and> \<not> matches transitionRx trimmed
        then (Character, setFlags True False False st)
      else if inDialogueContext st \<and> matches characterRx rawLine \<and> endsWith trimmed 94
              \<and> \<not> matches sceneHeadingRx trimmed \<and> \<not> matches transitionRx trimmed
        then (Character, setFlags True False False st)
      else if inDialogueContext st \<and> matches parentheticalRx trimmed
        then (Parenthetical, setFlags False True False st)
      else if inDialogueContext st then (Dialogue, setFlags False False True st)
      else (Action, setFlags False False False st))"

text \<open>One turn of the loop: the line pushed and the flags after it.\<close>

definition classifyLine :: "ParseState \<Rightarrow> jsstring \<Rightarrow> FountainLine \<times> ParseState" where
  "classifyLine st rawLine =
     (let trimmed = trim rawLine in
      if trimmed = [] then
        (if rawLine \<noteq> [] \<and> inDialogueContext st
         then (\<lparr>type = DialogueBlank, lineText = [], rawText = rawLine\<rparr>, st)
         else (\<lparr>type = Empty, lineText = [], rawText = rawLine\<rparr>,
               (setFlags False False False st)\<lparr>lastLineWasEmpty := True\<rparr>))
      else
        (case classifyText st rawLine trimmed of
           (ty, st') \<Rightarrow> (\<lparr>type = ty, lineText = trimmed, rawText = rawLine\<rparr>,
                        st'\<lparr>lastLineWasEmpty := False\<rparr>)))"

primrec parseLines :: "ParseState \<Rightarrow> jsstring list \<Rightarrow> FountainLine list" where
  "parseLines st [] = []"
| "parseLines st (rawLine # rest) =
     (case classifyLine st rawLine of (fl, st') \<Rightarrow> fl # parseLines st' rest)"

definition parseFountain :: "jsstring \<Rightarrow> FountainLine list" where
  "parseFountain content = parseLines initialState (splitOn 10 content)"

section \<open>The static preview: \<^verbatim>\<open>fountainToHTML\<close>\<close>

text \<open>\<^verbatim>\<open>text.replace(/c/g, r)\<close> for a one-character pattern.\<close>

definition replaceAll :: "nat \<Rightarrow> jsstring \<Rightarrow> jsstring \<Rightarrow> jsstring" where
  "replaceAll c r s = concat (map (\<lambda>x. if x = c then r else [x]) s)"

definition escapeHtml :: "jsstring \<Rightarrow> jsstring" where
  "escapeHtml s =
     replaceAll 34 (cu ''&quot;'')
       (replaceAll 62 (cu ''&gt;'')
         (replaceAll 60 (cu ''&lt;'')
           (replaceAll 38 (cu ''&amp;'') s)))"

text \<open>
  \<^verbatim>\<open>s.replace(/^r/, '')\<close> for a greedy pattern \<open>r\<close> without alternatives: the longest
  prefix that matches is removed. \<open>longestMatch r s n\<close> is the greatest length up to \<open>n\<close>
  of a matching prefix.
\<close>

primrec longestMatch :: "rx \<Rightarrow> jsstring \<Rightarrow> nat \<Rightarrow> nat option" where
  "longestMatch r s 0 = (if matches r [] then Some 0 else None)"
| "longestMatch r s (Suc n) =
     (if matches r (take (Suc n) s) then Some (Suc n) else longestMatch r s n)"

definition removePrefixRx :: "rx \<Rightarrow> jsstring \<Rightarrow> jsstring" where
  "removePrefixRx r s =
     (case longestMatch r s (length s) of None \<Rightarrow> s | Some k \<Rightarrow> drop k s)"

text \<open>
  \<^verbatim>\<open>s.replace(/r$/, '')\<close>: the match starts at the leftmost position from which the rest
  of the string matches, and reaches the end.
\<close>

primrec removeSuffixRx :: "rx \<Rightarrow> jsstring \<Rightarrow> jsstring" where
  "removeSuffixRx r [] = []"
| "removeSuffixRx r (c # cs) = (if matches r (c # cs) then [] else c # removeSuffixRx r cs)"

text \<open>\<^verbatim>\<open>/^>\s*/\<close>, \<^verbatim>\<open>/\s*<$/\<close>, \<^verbatim>\<open>/^#+\s*/\<close> and \<^verbatim>\<open>/\s*\^\s*$/\<close>.\<close>

definition leadingGtRx :: rx where
  "leadingGtRx = Seq (lit CHR ''>'') (Star ws)"

definition trailingLtRx :: rx where
  "trailingLtRx = Seq (Star ws) (lit CHR ''<'')"

definition leadingHashRx :: rx where
  "leadingHashRx = Seq (rxPlus (lit CHR ''#'')) (Star ws)"

definition trailingCaretRx :: rx where
  "trailingCaretRx = Seq (Star ws) (Seq (lit CHR ''^'') (Star ws))"

definition isSectionHeading :: "LineType \<Rightarrow> bool" where
  "isSectionHeading ty = (case ty of SectionHeading level \<Rightarrow> True | _ \<Rightarrow> False)"

definition renderLine :: "FountainLine \<Rightarrow> jsstring" where
  \<open>renderLine line =
     (if type line = Empty \<or> type line = DialogueBlank
      then cu ''<div class="fountain-empty">&nbsp;</div>''
      else
        (let displayText =
           (if type line = Centered
              then escapeHtml (removeSuffixRx trailingLtRx (removePrefixRx leadingGtRx (lineText line)))
            else if type line = Transition
              then escapeHtml (removePrefixRx leadingGtRx (lineText line))
            else if isSectionHeading (type line)
              then escapeHtml (removePrefixRx leadingHashRx (lineText line))
            else escapeHtml (lineText line))
         in cu ''<div class="fountain-line fountain-'' @ typeName (type line) @ cu ''">''
              @ displayText @ cu ''</div>''))\<close>

text \<open>The \<^verbatim>\<open>while\<close> loop of \<^verbatim>\<open>collectDialogueBlock\<close>, from index \<open>j\<close>.\<close>

function collectFrom :: "FountainLine list \<Rightarrow> nat \<Rightarrow> FountainLine list" where
  "collectFrom lines j =
     (if j < length lines \<and> (type (lines ! j) = Dialogue \<or> type (lines ! j) = Parenthetical
           \<or> type (lines ! j) = DialogueBlank)
      then lines ! j # collectFrom lines (j + 1)
      else [])"
  by pat_completeness auto
termination
  by (relation "measure (\<lambda>(lines, j). length lines - j)") auto

declare collectFrom.simps [simp del]

definition collectDialogueBlock :: "FountainLine list \<Rightarrow> nat \<Rightarrow> FountainLine list" where
  "collectDialogueBlock lines startIdx =
     (if startIdx \<ge> length lines \<or> type (lines ! startIdx) \<noteq> Character then []
      else lines ! startIdx # collectFrom lines (startIdx + 1))"

text \<open>The loop that skips empty lines: the cursor after it.\<close>

function skipEmpty :: "FountainLine list \<Rightarrow> nat \<Rightarrow> nat" where
  "skipEmpty lines cursor =
     (if cursor < length lines \<and> type (lines ! cursor) = Empty
      then skipEmpty lines (cursor + 1)
      else cursor)"
  by pat_completeness auto
termination
  by (relation "measure (\<lambda>(lines, cursor). length lines - cursor)") auto

declare skipEmpty.simps [simp del]

text \<open>The right column: the character line loses its caret.\<close>

definition renderRight :: "FountainLine \<Rightarrow> jsstring" where
  "renderRight dl =
     (if type dl = Character
      then renderLine (dl\<lparr>lineText := removeSuffixRx trailingCaretRx (lineText dl)\<rparr>)
      else renderLine dl)"

text \<open>The strings pushed for one dual dialogue block.\<close>

definition dualParts :: "FountainLine list \<Rightarrow> FountainLine list \<Rightarrow> jsstring list" where
  \<open>dualParts leftBlock rightBlock =
     [cu ''<div class="fountain-dual-dialogue">'', cu ''<div class="fountain-dual-col">'']
     @ map renderLine leftBlock
     @ [cu ''</div>'', cu ''<div class="fountain-dual-col">'']
     @ map renderRight rightBlock
     @ [cu ''</div>'', cu ''</div>'']\<close>

text \<open>
  The main loop of \<^verbatim>\<open>fountainToHTML\<close> from index \<open>i\<close>: the strings pushed to
  \<^verbatim>\<open>htmlParts\<close> from there on.
\<close>

function htmlLoop :: "FountainLine list \<Rightarrow> nat \<Rightarrow> jsstring list" where
  "htmlLoop lines i =
     (if i < length lines then
        (if type (lines ! i) = Character
            \<and> skipEmpty lines (i + length (collectDialogueBlock lines i)) < length lines
            \<and> type (lines ! skipEmpty lines (i + length (collectDialogueBlock lines i))) = Character
            \<and> endsWith (lineText (lines ! skipEmpty lines (i + length (collectDialogueBlock lines i)))) 94
         then
           dualParts (collectDialogueBlock lines i)
             (collectDialogueBlock lines (skipEmpty lines (i + length (collectDialogueBlock lines i))))
           @ htmlLoop lines
               (skipEmpty lines (i + length (collectDialogueBlock lines i))
                + length (collectDialogueBlock lines
                    (skipEmpty lines (i + length (collectDialogueBlock lines i)))))
         else renderLine (lines ! i) # htmlLoop lines (i + 1))
      else [])"
  by pat_completeness auto

termination htmlLoop
proof (relation "measure (\<lambda>(lines, i). length lines - i)", goal_cases)
  case 1
  show ?case by simp
next
  case (2 lines i)
  have "c \<le> skipEmpty lines c" for c
    by (induction lines c rule: skipEmpty.induct) (subst skipEmpty.simps, auto)
  then have "i + length (collectDialogueBlock lines i)
      \<le> skipEmpty lines (i + length (collectDialogueBlock lines i))" .
  moreover have "0 < length (collectDialogueBlock lines i)"
    using 2 by (simp add: collectDialogueBlock_def)
  ultimately have "i < skipEmpty lines (i + length (collectDialogueBlock lines i))"
    by arith
  moreover have "i < length lines"
    using 2 by simp
  ultimately show ?case by simp
next
  case (3 lines i)
  then show ?case by simp
qed

declare htmlLoop.simps [simp del]

definition fountainToHTML :: "FountainLine list \<Rightarrow> jsstring" where
  "fountainToHTML lines = joinWith [10] (htmlLoop lines 0)"

subsection \<open>The render tree of the static preview\<close>

text \<open>
  Each turn of the main loop of \<^verbatim>\<open>fountainToHTML\<close> renders either one line or one dual
  dialogue block. \<open>assembleLoop\<close> is the same loop, returning these choices in place of
  their HTML; \<open>nodeHtml\<close> is the HTML of one choice.
\<close>

datatype RenderNode = SingleLine FountainLine | DualBlock "FountainLine list" "FountainLine list"

function assembleLoop :: "FountainLine list \<Rightarrow> nat \<Rightarrow> RenderNode list" where
  "assembleLoop lines i =
     (if i < length lines then
        (if type (lines ! i) = Character
            \<and> skipEmpty lines (i + length (collectDialogueBlock lines i)) < length lines
            \<and> type (lines ! skipEmpty lines (i + length (collectDialogueBlock lines i))) = Character
            \<and> endsWith (lineText (lines ! skipEmpty lines (i + length (collectDialogueBlock lines i)))) 94
         then
           DualBlock (collectDialogueBlock lines i)
             (collectDialogueBlock lines (skipEmpty lines (i + length (collectDialogueBlock lines i))))
           # assembleLoop lines
               (skipEmpty lines (i + length (collectDialogueBlock lines i))
                + length (collectDialogueBlock lines
                    (skipEmpty lines (i + length (collectDialogueBlock lines i)))))
         else SingleLine (lines ! i) # assembleLoop lines (i + 1))
      else [])"
  by pat_completeness auto
termination
proof (relation "measure (\<lambda>(lines, i). length lines - i)", goal_cases)
  case 1
  show ?case by simp
next
  case (2 lines i)
  have "c \<le> skipEmpty lines c" for c
    by (induction lines c rule: skipEmpty.induct) (subst skipEmpty.simps, auto)
  then have "i + length (collectDialogueBlock lines i)
      \<le> skipEmpty lines (i + length (collectDialogueBlock lines i))" .
  moreover have "0 < length (collectDialogueBlock lines i)"
    using 2 by (simp add: collectDialogueBlock_def)
  ultimately have "i < skipEmpty lines (i + length (collectDialogueBlock lines i))"
    by arith
  moreover have "i < length lines"
    using 2 by simp
  ultimately show ?case by simp
next
  case (3 lines i)
  then show ?case by simp
qed

declare assembleLoop.simps [simp del]

definition assemble :: "FountainLine list \<Rightarrow> RenderNode list" where
  "assemble lines = assembleLoop lines 0"

fun nodeHtml :: "RenderNode \<Rightarrow> jsstring list" where
  "nodeHtml (SingleLine line) = [renderLine line]"
| "nodeHtml (DualBlock leftBlock rightBlock) = dualParts leftBlock rightBlock"

fun nodeLines :: "RenderNode \<Rightarrow> FountainLine list" where
  "nodeLines (SingleLine line) = [line]"
| "nodeLines (DualBlock leftBlock rightBlock) = leftBlock @ rightBlock"

section \<open>The editor decorations: \<^verbatim>\<open>buildDecorations\<close>\<close>

text \<open>
  A \<^verbatim>\<open>LineDeco\<close> without its character offsets. The \<^verbatim>\<open>isDualProcessed\<close> flags, which the
  second pass sets through the group arrays, are kept in a list beside the lines, and a
  group is the list of the indices of its lines.
\<close>

record LineDeco =
  lineNum :: nat
  decoType :: LineType
  decoText :: jsstring

text \<open>The first loop of \<^verbatim>\<open>buildDecorations\<close>: no dialogue continuation, no section
  heading, and a character cue only after an empty line.\<close>

definition classifyDeco :: "ParseState \<Rightarrow> jsstring \<Rightarrow> LineType \<times> ParseState" where
  "classifyDeco st ltext =
     (let trimmed = trim ltext in
      if trimmed = [] then
        (Empty, (setFlags False False False st)\<lparr>lastLineWasEmpty := True\<rparr>)
      else
        (case
           (if matches sceneHeadingRx trimmed then (SceneHeading, setFlags False False False st)
            else if matches centeredRx trimmed then (Centered, setFlags False False False st)
            else if matches transitionRx trimmed then (Transition, setFlags False False False st)
            else if lastLineWasEmpty st \<and> matches characterRx ltext
                    \<and> \<not> matches sceneHeadingRx trimmed \<and> \<not> matches transitionRx trimmed
              then (Character, setFlags True False False st)
            else if inDialogueContext st \<and> matches parentheticalRx trimmed
              then (Parenthetical, setFlags False True False st)
            else if inDialogueContext st then (Dialogue, setFlags False False True st)
            else (Action, setFlags False False False st))
         of (ty, st') \<Rightarrow> (ty, st'\<lparr>lastLineWasEmpty := False\<rparr>)))"

primrec decoLines :: "ParseState \<Rightarrow> nat \<Rightarrow> jsstring list \<Rightarrow> LineDeco list" where
  "decoLines st i [] = []"
| "decoLines st i (ltext # rest) =
     (case classifyDeco st ltext of
        (ty, st') \<Rightarrow> \<lparr>lineNum = i, decoType = ty, decoText = trim ltext\<rparr> # decoLines st' (i + 1) rest)"

text \<open>The lines of the document are numbered from 1.\<close>

definition classifyDoc :: "jsstring list \<Rightarrow> LineDeco list" where
  "classifyDoc docLines = decoLines initialState 1 docLines"

text \<open>The right group after the marker line, from index \<open>k\<close>.\<close>

function rightScan :: "LineDeco list \<Rightarrow> nat \<Rightarrow> nat list" where
  "rightScan decos k =
     (if k < length decos then
        (if decoType (decos ! k) = Dialogue \<or> decoType (decos ! k) = Parenthetical
           then k # rightScan decos (k + 1)
         else if decoType (decos ! k) = Empty \<and> k + 1 < length decos
                 \<and> (decoType (decos ! (k + 1)) = Dialogue
                      \<or> decoType (decos ! (k + 1)) = Parenthetical)
           then k # rightScan decos (k + 1)
         else [])
      else [])"
  by pat_completeness auto
termination
  by (relation "measure (\<lambda>(decos, k). length decos - k)") auto

declare rightScan.simps [simp del]

text \<open>
  The two backward loops. \<^verbatim>\<open>findLeft\<close> runs down to \<open>-1\<close>; the argument \<open>n\<close> here is
  \<^verbatim>\<open>findLeft + 1\<close>, so \<open>0\<close> is the end of the loop and \<open>Suc f\<close> looks at line \<open>f\<close>.
  \<open>midScan\<close> returns the empty middle group and where it stopped.
\<close>

primrec midScan :: "LineDeco list \<Rightarrow> nat \<Rightarrow> nat list \<Rightarrow> nat list \<times> nat" where
  "midScan decos 0 emptyMiddleGroup = (emptyMiddleGroup, 0)"
| "midScan decos (Suc f) emptyMiddleGroup =
     (if decoType (decos ! f) = Empty then midScan decos f (f # emptyMiddleGroup)
      else (emptyMiddleGroup, Suc f))"

primrec leftScan :: "LineDeco list \<Rightarrow> nat \<Rightarrow> nat list \<Rightarrow> nat list" where
  "leftScan decos 0 leftGroup = leftGroup"
| "leftScan decos (Suc f) leftGroup =
     (if decoType (decos ! f) = Dialogue \<or> decoType (decos ! f) = Parenthetical
        then leftScan decos f (f # leftGroup)
      else if decoType (decos ! f) = Character then f # leftGroup
      else if decoType (decos ! f) = Empty \<and> 1 \<le> f
              \<and> (decoType (decos ! (f - 1)) = Dialogue
                   \<or> decoType (decos ! (f - 1)) = Parenthetical
                   \<or> decoType (decos ! (f - 1)) = Character)
        then leftScan decos f (f # leftGroup)
      else leftGroup)"

record DualPass =
  isDualProcessed :: "bool list"
  blocksToReplace :: "(nat list \<times> nat list) list"

definition markProcessed :: "nat list \<Rightarrow> bool list \<Rightarrow> bool list" where
  "markProcessed grp flags = fold (\<lambda>i fl. fl[i := True]) grp flags"

text \<open>One turn of the loop over \<open>j\<close>.\<close>

definition dualStep :: "LineDeco list \<Rightarrow> nat \<Rightarrow> DualPass \<Rightarrow> DualPass" where
  "dualStep decos j dp =
     (if decoType (decos ! j) = Character \<and> endsWith (decoText (decos ! j)) 94
          \<and> \<not> isDualProcessed dp ! j
      then
        (let rightGroup = j # rightScan decos (j + 1);
             (emptyMiddleGroup, findLeft) = midScan decos j [];
             leftGroup = leftScan decos findLeft []
         in if leftGroup \<noteq> [] \<and> decoType (decos ! hd leftGroup) = Character
            then \<lparr>isDualProcessed =
                    markProcessed rightGroup
                      (markProcessed emptyMiddleGroup
                        (markProcessed leftGroup (isDualProcessed dp))),
                  blocksToReplace = blocksToReplace dp @ [(leftGroup, rightGroup)]\<rparr>
            else dp)
      else dp)"

definition dualPass :: "LineDeco list \<Rightarrow> DualPass" where
  "dualPass decos =
     fold (dualStep decos) [0..<length decos]
       \<lparr>isDualProcessed = replicate (length decos) False, blocksToReplace = []\<rparr>"

text \<open>
  What is handed to the editor: for each block the lines of the two columns of its widget
  (empty lines filtered out), and for each line that is neither processed nor empty its
  number and class.
\<close>

definition widgetLines :: "LineDeco list \<Rightarrow> nat list \<Rightarrow> (LineType \<times> jsstring) list" where
  "widgetLines decos grp =
     map (\<lambda>i. (decoType (decos ! i), decoText (decos ! i)))
       (filter (\<lambda>i. decoType (decos ! i) \<noteq> Empty) grp)"

definition lineDecorations :: "LineDeco list \<Rightarrow> bool list \<Rightarrow> (nat \<times> jsstring) list" where
  "lineDecorations decos flags =
     map (\<lambda>i. (lineNum (decos ! i), cu ''fountain-'' @ typeName (decoType (decos ! i))))
       (filter (\<lambda>i. \<not> flags ! i \<and> decoType (decos ! i) \<noteq> Empty) [0..<length decos])"

section \<open>Descriptions of lines used in the statements\<close>

text \<open>
  The flags with which \<^verbatim>\<open>parseFountain\<close> reaches line \<open>i\<close> of the split text, and the
  types of the lines of a dialogue.
\<close>

definition stateBefore :: "jsstring list \<Rightarrow> nat \<Rightarrow> ParseState" where
  "stateBefore raws i =
     foldl (\<lambda>st rawLine. snd (classifyLine st rawLine)) initialState (take i raws)"

definition inDialogueType :: "LineType \<Rightarrow> bool" where
  "inDialogueType ty =
     (ty = Character \<or> ty = Parenthetical \<or> ty = Dialogue \<or> ty = DialogueBlank)"

text \<open>
  The transition pattern in words, as the code has it: letters of either case and white
  space before \<open>TO:\<close> in either case; one of the three fixed lines in either case; or a
  line of two characters or more that starts with \<open>>\<close>, does not end with \<open><\<close> and
  has no line terminator between its first and its last character.
\<close>

definition toLine :: "jsstring \<Rightarrow> bool" where
  "toLine t =
     (3 < length t
      \<and> list_all (\<lambda>c. isUpper (canon c) \<or> isWS c) (take (length t - 3) t)
      \<and> map canon (drop (length t - 3) t) = cu ''TO:'')"

definition forcedTransition :: "jsstring \<Rightarrow> bool" where
  "forcedTransition t =
     (2 \<le> length t \<and> hd t = 62 \<and> last t \<noteq> 60
      \<and> list_all (\<lambda>c. \<not> isLineTerminator c) (butlast (tl t)))"

definition transitionLine :: "jsstring \<Rightarrow> bool" where
  "transitionLine t =
     (toLine t
      \<or> map canon t = cu ''FADE TO BLACK.''
      \<or> map canon t = cu ''FADE OUT.''
      \<or> map canon t = cu ''CUT TO BLACK.''
      \<or> forcedTransition t)"

text \<open>
  The transition rule in the words of the specification: upper-case words ending in
  \<open>TO:\<close>, or exactly one of the three fixed lines, or a line that begins with \<open>>\<close> and
  does not end with \<open><\<close>.
\<close>

definition specTransition :: "jsstring \<Rightarrow> bool" where
  "specTransition t =
     ((3 < length t
        \<and> list_all (\<lambda>c. isUpper c \<or> isWS c) (take (length t - 3) t)
        \<and> drop (length t - 3) t = cu ''TO:'')
      \<or> t = cu ''FADE TO BLACK.''
      \<or> t = cu ''FADE OUT.''
      \<or> t = cu ''CUT TO BLACK.''
      \<or> (startsWith t 62 \<and> \<not> endsWith t 60))"

text \<open>The characters with which a trimmed character cue can begin.\<close>

definition cueStart :: "nat \<Rightarrow> bool" where
  "cueStart c = (isUpper c \<or> isDigit c \<or> c = 40 \<or> c = 94)"

definition firstOk :: "jsstring \<Rightarrow> bool" where
  "firstOk s = (dropWhile isWS s = [] \<or> cueStart (hd (dropWhile isWS s)))"

text \<open>
  The test of \<^verbatim>\<open>fountainToHTML\<close> for a dual dialogue block at line \<open>i\<close>, the lines of a
  list of render nodes, and what is said of a dual block of the preview: its cues, and the
  types of its lines.
\<close>

definition dualAt :: "FountainLine list \<Rightarrow> nat \<Rightarrow> bool" where
  "dualAt lines i =
     (type (lines ! i) = Character
      \<and> skipEmpty lines (i + length (collectDialogueBlock lines i)) < length lines
      \<and> type (lines ! skipEmpty lines (i + length (collectDialogueBlock lines i))) = Character
      \<and> endsWith (lineText (lines ! skipEmpty lines (i + length (collectDialogueBlock lines i)))) 94)"

definition flatten :: "RenderNode list \<Rightarrow> FountainLine list" where
  "flatten nodes = concat (map nodeLines nodes)"

fun dualShape :: "RenderNode \<Rightarrow> bool" where
  "dualShape (SingleLine line) = True"
| "dualShape (DualBlock leftBlock rightBlock) =
     (leftBlock \<noteq> [] \<and> type (hd leftBlock) = Character
      \<and> rightBlock \<noteq> [] \<and> type (hd rightBlock) = Character
      \<and> endsWith (lineText (hd rightBlock)) 94)"

fun blockTypes :: "RenderNode \<Rightarrow> bool" where
  "blockTypes (SingleLine line) = True"
| "blockTypes (DualBlock leftBlock rightBlock) =
     list_all (\<lambda>l. type l = Character \<or> type l = Dialogue \<or> type l = Parenthetical
                  \<or> type l = DialogueBlank) (leftBlock @ rightBlock)"

text \<open>
  The lines that one turn of the main loop of \<^verbatim>\<open>fountainToHTML\<close> passes over, from \<open>i\<close> to
  the next value of \<open>i\<close>: one line, or the left block, the lines skipped between the two
  blocks, and the right block. \<open>spanLoop\<close> is the same loop once more, returning these;
  \<open>spanNode\<close> is the render node of a turn, \<open>spanLines\<close> the lines it passes over, and
  \<open>spanKinds\<close> what is said of their types.
\<close>

datatype Span =
    LineSpan FountainLine
  | DualSpan "FountainLine list" "FountainLine list" "FountainLine list"

function spanLoop :: "FountainLine list \<Rightarrow> nat \<Rightarrow> Span list" where
  "spanLoop lines i =
     (if i < length lines then
        (if type (lines ! i) = Character
            \<and> skipEmpty lines (i + length (collectDialogueBlock lines i)) < length lines
            \<and> type (lines ! skipEmpty lines (i + length (collectDialogueBlock lines i))) = Character
            \<and> endsWith (lineText (lines ! skipEmpty lines (i + length (collectDialogueBlock lines i)))) 94
         then
           DualSpan (collectDialogueBlock lines i)
             (take (skipEmpty lines (i + length (collectDialogueBlock lines i))
                     - (i + length (collectDialogueBlock lines i)))
                (drop (i + length (collectDialogueBlock lines i)) lines))
             (collectDialogueBlock lines (skipEmpty lines (i + length (collectDialogueBlock lines i))))
           # spanLoop lines
               (skipEmpty lines (i + length (collectDialogueBlock lines i))
                + length (collectDialogueBlock lines
                    (skipEmpty lines (i + length (collectDialogueBlock lines i)))))
         else LineSpan (lines ! i) # spanLoop lines (i + 1))
      else [])"
  by pat_completeness auto
termination
proof (relation "measure (\<lambda>(lines, i). length lines - i)", goal_cases)
  case 1
  show ?case by simp
next
  case (2 lines i)
  have "c \<le> skipEmpty lines c" for c
    by (induction lines c rule: skipEmpty.induct) (subst skipEmpty.simps, auto)
  then have "i + length (collectDialogueBlock lines i)
      \<le> skipEmpty lines (i + length (collectDialogueBlock lines i))" .
  moreover have "0 < length (collectDialogueBlock lines i)"
    using 2 by (simp add: collectDialogueBlock_def)
  ultimately have "i < skipEmpty lines (i + length (collectDialogueBlock lines i))"
    by arith
  moreover have "i < length lines"
    using 2 by simp
  ultimately show ?case by simp
next
  case (3 lines i)
  then show ?case by simp
qed

declare spanLoop.simps [simp del]

definition spans :: "FountainLine list \<Rightarrow> Span list" where
  "spans lines = spanLoop lines 0"

fun spanNode :: "Span \<Rightarrow> RenderNode" where
  "spanNode (LineSpan line) = SingleLine line"
| "spanNode (DualSpan leftBlock gap rightBlock) = DualBlock leftBlock rightBlock"

fun spanLines :: "Span \<Rightarrow> FountainLine list" where
  "spanLines (LineSpan line) = [line]"
| "spanLines (DualSpan leftBlock gap rightBlock) = leftBlock @ gap @ rightBlock"

fun spanKinds :: "Span \<Rightarrow> bool" where
  "spanKinds (LineSpan line) = True"
| "spanKinds (DualSpan leftBlock gap rightBlock) =
     (list_all (\<lambda>l. type l = Character \<or> type l = Dialogue \<or> type l = Parenthetical
                  \<or> type l = DialogueBlank) (leftBlock @ rightBlock)
      \<and> list_all (\<lambda>l. type l = Empty) gap)"

text \<open>
  The three strings that \<^verbatim>\<open>fountainToHTML\<close> pushes around the columns of a dual dialogue
  block, and the \<^verbatim>\<open>div\<close> elements that a render node gives for its lines: one for each
  line, in order.
\<close>

definition isContainerTag :: "jsstring \<Rightarrow> bool" where
  \<open>isContainerTag part =
     (part = cu ''<div class="fountain-dual-dialogue">''
      \<or> part = cu ''<div class="fountain-dual-col">''
      \<or> part = cu ''</div>'')\<close>

fun nodeDivs :: "RenderNode \<Rightarrow> jsstring list" where
  "nodeDivs (SingleLine line) = [renderLine line]"
| "nodeDivs (DualBlock leftBlock rightBlock) = map renderLine leftBlock @ map renderRight rightBlock"

text \<open>
  For the editor: the conditions under which the right and the left scan go on, the test
  for a marker line, the left group found from a marker, and whether the marker pairs; then
  what is said of a block: its cues, and the types of the lines from its first to its last.
  \<open>breaksBlock\<close> holds of the types that end a block.
\<close>

definition goRight :: "LineDeco list \<Rightarrow> nat \<Rightarrow> bool" where
  "goRight decos k =
     (k < length decos
      \<and> (decoType (decos ! k) = Dialogue \<or> decoType (decos ! k) = Parenthetical
         \<or> (decoType (decos ! k) = Empty \<and> k + 1 < length decos
             \<and> (decoType (decos ! (k + 1)) = Dialogue
                  \<or> decoType (decos ! (k + 1)) = Parenthetical))))"

definition goLeft :: "LineDeco list \<Rightarrow> nat \<Rightarrow> bool" where
  "goLeft decos f =
     (decoType (decos ! f) = Dialogue \<or> decoType (decos ! f) = Parenthetical
      \<or> (decoType (decos ! f) = Empty \<and> 1 \<le> f
          \<and> (decoType (decos ! (f - 1)) = Dialogue
               \<or> decoType (decos ! (f - 1)) = Parenthetical
               \<or> decoType (decos ! (f - 1)) = Character)))"

definition cueShape :: "LineDeco list \<Rightarrow> nat list \<times> nat list \<Rightarrow> bool" where
  "cueShape decos b =
     (fst b \<noteq> [] \<and> decoType (decos ! hd (fst b)) = Character
      \<and> snd b \<noteq> [] \<and> decoType (decos ! hd (snd b)) = Character
      \<and> endsWith (decoText (decos ! hd (snd b))) 94)"

definition spanTypes :: "LineDeco list \<Rightarrow> nat list \<times> nat list \<Rightarrow> bool" where
  "spanTypes decos b =
     list_all (\<lambda>k. decoType (decos ! k) = Character \<or> decoType (decos ! k) = Dialogue
                  \<or> decoType (decos ! k) = Parenthetical \<or> decoType (decos ! k) = Empty)
       [hd (fst b)..<Suc (last (snd b))]"

definition breaksBlock :: "LineType \<Rightarrow> bool" where
  "breaksBlock ty =
     (ty = SceneHeading \<or> ty = Transition \<or> ty = Centered \<or> ty = Action
      \<or> isSectionHeading ty)"

definition isMarker :: "LineDeco list \<Rightarrow> nat \<Rightarrow> DualPass \<Rightarrow> bool" where
  "isMarker decos j dp =
     (decoType (decos ! j) = Character \<and> endsWith (decoText (decos ! j)) 94
      \<and> \<not> isDualProcessed dp ! j)"

definition leftGroupOf :: "LineDeco list \<Rightarrow> nat \<Rightarrow> nat list" where
  "leftGroupOf decos j = leftScan decos (snd (midScan decos j [])) []"

definition pairs :: "LineDeco list \<Rightarrow> nat \<Rightarrow> DualPass \<Rightarrow> bool" where
  "pairs decos j dp =
     (isMarker decos j dp \<and> leftGroupOf decos j \<noteq> []
      \<and> decoType (decos ! hd (leftGroupOf decos j)) = Character)"

text \<open>
  What the editor shows: \<open>decoratedLines\<close> are the indices of the lines that get a line
  decoration of their own (the last loop of \<^verbatim>\<open>buildDecorations\<close>), and a line lies in a
  block when it lies in the range that the widget of the block replaces, from the first line
  of the left group to the last line of the right group. \<open>covered\<close> relates the flags to
  the blocks: a line is flagged exactly when it lies in a block.
\<close>

definition decoratedLines :: "LineDeco list \<Rightarrow> bool list \<Rightarrow> nat list" where
  "decoratedLines decos flags =
     filter (\<lambda>i. \<not> flags ! i \<and> decoType (decos ! i) \<noteq> Empty) [0..<length decos]"

definition inBlock :: "nat list \<times> nat list \<Rightarrow> nat \<Rightarrow> bool" where
  "inBlock b i = (hd (fst b) \<le> i \<and> i \<le> last (snd b))"

definition covered :: "LineDeco list \<Rightarrow> DualPass \<Rightarrow> bool" where
  "covered decos dp =
     (length (isDualProcessed dp) = length decos
      \<and> (\<forall>i<length decos. isDualProcessed dp ! i
            \<longrightarrow> (\<exists>b\<in>set (blocksToReplace dp). inBlock b i))
      \<and> (\<forall>b\<in>set (blocksToReplace dp). \<forall>i. inBlock b i
            \<longrightarrow> i < length decos \<and> isDualProcessed dp ! i))"

text \<open>
  The HTML of a line in words: the entity of a character, the text without its leading
  \<open>>\<close>, without its trailing \<open><\<close>, without its leading \<open>#\<close> characters (each with the
  white space next to it), the text displayed for a line, and the \<^verbatim>\<open>div\<close> of a line.
\<close>

definition escapeChar :: "nat \<Rightarrow> jsstring" where
  "escapeChar c =
     (if c = 38 then cu ''&amp;''
      else if c = 60 then cu ''&lt;''
      else if c = 62 then cu ''&gt;''
      else if c = 34 then cu ''&quot;''
      else [c])"

definition stripLeadingGt :: "jsstring \<Rightarrow> jsstring" where
  "stripLeadingGt t = (if startsWith t 62 then dropWhile isWS (tl t) else t)"

definition stripTrailingLt :: "jsstring \<Rightarrow> jsstring" where
  "stripTrailingLt t = (if endsWith t 60 then trimEnd (butlast t) else t)"

definition stripLeadingHashes :: "jsstring \<Rightarrow> jsstring" where
  "stripLeadingHashes t =
     (if startsWith t 35 then dropWhile isWS (dropWhile (\<lambda>c. c = 35) t) else t)"

definition displayText :: "FountainLine \<Rightarrow> jsstring" where
  "displayText line =
     (if type line = Centered then stripTrailingLt (stripLeadingGt (lineText line))
      else if type line = Transition then stripLeadingGt (lineText line)
      else if isSectionHeading (type line) then stripLeadingHashes (lineText line)
      else lineText line)"

definition lineDiv :: "FountainLine \<Rightarrow> jsstring" where
  \<open>lineDiv line =
     cu ''<div class="fountain-line fountain-'' @ typeName (type line) @ cu ''">''
     @ concat (map escapeChar (displayText line)) @ cu ''</div>''\<close>

text \<open>The six lines of the dual dialogue example.\<close>

definition dualExample :: "jsstring list" where
  "dualExample = map cu ['''', ''JOHN'', ''Hi!'', '''', ''JANE^'', ''Hey!'']"

text \<open>
  Three more texts: the example followed by a scene heading, the example followed by a third
  cue with a caret, and two cues with an action line between them.
\<close>

definition sceneExample :: "jsstring list" where
  "sceneExample = dualExample @ [cu ''INT. HOUSE'']"

definition threeCues :: "jsstring list" where
  "threeCues = dualExample @ map cu ['''', ''JIM^'', ''Ho!'']"

definition actionBetween :: "jsstring list" where
  "actionBetween = map cu [''JOHN'', ''Hi!'', '''', ''He leaves.'', '''', ''JANE^'', ''Hey!'']"

section \<open>Evaluation\<close>

lemmas rx_defs = characterRx_def sceneHeadingRx_def transitionRx_def centeredRx_def
  parentheticalRx_def sectionRx_def rxPlus_def opt_def lit_def notLit_def litCI_def ws_def
  dot_def anyChar_def leadingGtRx_def trailingLtRx_def leadingHashRx_def trailingCaretRx_def

lemmas ch_defs = isWS_def isUpper_def isDigit_def isLineTerminator_def canon_def cu_def

lemmas cl_defs = classifyLine_def classifyText_def trim_def trimStart_def trimEnd_def
  initialState_def setFlags_def inDialogueContext_def endsWith_def Let_def

lemmas loop_simps = collectFrom.simps skipEmpty.simps assembleLoop.simps htmlLoop.simps
  rightScan.simps collectDialogueBlock_def assemble_def

lemma upTo_numeral: "upTo (numeral k) r = opt (Seq r (upTo (pred_numeral k) r))"
  by (simp add: numeral_eq_Suc)

section \<open>The examples of the specification\<close>

lemma scene_heading_examples:
  "type (fst (classifyLine initialState (cu ''INT. KITCHEN - DAY''))) = SceneHeading"
  "type (fst (classifyLine initialState (cu ''. KITCHEN''))) = SceneHeading"
  "type (fst (classifyLine initialState (cu ''.. ELLIPSIS''))) = Action"
  by (simp_all add: rx_defs ch_defs cl_defs upTo_numeral)

lemma character_dialogue_example:
  "map type (parseLines initialState (map cu ['''', ''JOHN'', ''Hello there.'']))
     = [Empty, Character, Dialogue]"
  by (simp add: rx_defs ch_defs cl_defs upTo_numeral)

lemma parenthetical_in_action_example:
  "map type (parseLines initialState (map cu [''John walks in.'', ''(he is tired)'']))
     = [Action, Action]"
  by (simp add: rx_defs ch_defs cl_defs upTo_numeral)

section \<open>The classifier gives one line per source line\<close>

lemma splitOn_not_Nil: "splitOn sep s \<noteq> []"
  by (induction s) (auto split: list.splits)

lemma length_splitOn: "length (splitOn sep s) = Suc (count_list s sep)"
proof (induction s)
  case Nil
  show ?case by simp
next
  case (Cons c cs)
  then show ?case
    using splitOn_not_Nil [of sep cs] by (auto split: list.splits)
qed

lemma rawText_classifyLine: "rawText (fst (classifyLine st rawLine)) = rawLine"
  by (simp add: classifyLine_def Let_def split: prod.splits)

lemma map_rawText_parseLines: "map rawText (parseLines st raws) = raws"
proof (induction raws arbitrary: st)
  case Nil
  show ?case by simp
next
  case (Cons r rs)
  obtain fl st' where c: "classifyLine st r = (fl, st')"
    by (cases "classifyLine st r")
  have "rawText fl = r"
    using rawText_classifyLine [of st r] c by simp
  with Cons c show ?case by simp
qed

lemma length_parseLines: "length (parseLines st raws) = length raws"
  using map_rawText_parseLines [of st raws] by (metis length_map)

lemma classifyLine_fallback:
  assumes "trim rawLine \<noteq> []"
    and "\<not> matches sceneHeadingRx (trim rawLine)"
    and "\<not> matches centeredRx (trim rawLine)"
    and "\<not> matches sectionRx (trim rawLine)"
    and "\<not> matches transitionRx (trim rawLine)"
    and "\<not> (lastLineWasEmpty st \<and> matches characterRx rawLine)"
    and "\<not> inDialogueContext st"
  shows "type (fst (classifyLine st rawLine)) = Action"
  using assms by (simp add: classifyLine_def classifyText_def Let_def)

lemma parseLines_nth:
  "i < length raws \<Longrightarrow>
     parseLines st raws ! i
       = fst (classifyLine (foldl (\<lambda>st rawLine. snd (classifyLine st rawLine)) st (take i raws))
              (raws ! i))"
proof (induction raws arbitrary: st i)
  case Nil
  then show ?case by simp
next
  case (Cons r rs)
  obtain fl st' where c: "classifyLine st r = (fl, st')"
    by (cases "classifyLine st r")
  show ?case
  proof (cases i)
    case 0
    with c show ?thesis by simp
  next
    case (Suc k)
    with Cons.prems have "k < length rs" by simp
    then show ?thesis
      using Cons.IH [of k st'] c Suc by simp
  qed
qed

lemma parseFountain_nth:
  assumes "i < length (splitOn 10 content)"
  shows "parseFountain content ! i
     = fst (classifyLine (stateBefore (splitOn 10 content) i) (splitOn 10 content ! i))"
  using assms by (simp add: parseFountain_def stateBefore_def parseLines_nth)

lemma stateBefore_0: "stateBefore raws 0 = initialState"
  by (simp add: stateBefore_def)

lemma stateBefore_Suc:
  assumes "i < length raws"
  shows "stateBefore raws (Suc i) = snd (classifyLine (stateBefore raws i) (raws ! i))"
  using assms by (simp add: stateBefore_def take_Suc_conv_app_nth)

lemma classifyLine_flags:
  assumes "inDialogueContext st \<longrightarrow> \<not> lastLineWasEmpty st"
  shows "(inDialogueContext (snd (classifyLine st r)) \<longrightarrow> \<not> lastLineWasEmpty (snd (classifyLine st r)))
     \<and> (lastLineWasEmpty (snd (classifyLine st r)) \<longleftrightarrow> type (fst (classifyLine st r)) = Empty)
     \<and> (inDialogueContext (snd (classifyLine st r))
          \<longleftrightarrow> inDialogueType (type (fst (classifyLine st r))))"
  using assms
  by (auto simp: classifyLine_def classifyText_def setFlags_def inDialogueContext_def
      inDialogueType_def Let_def)

lemma stateBefore_wf:
  "i \<le> length raws \<Longrightarrow>
     inDialogueContext (stateBefore raws i) \<longrightarrow> \<not> lastLineWasEmpty (stateBefore raws i)"
proof (induction i)
  case 0
  show ?case by (simp add: stateBefore_0 initialState_def inDialogueContext_def)
next
  case (Suc i)
  then have i: "i < length raws" by simp
  then have "inDialogueContext (stateBefore raws i) \<longrightarrow> \<not> lastLineWasEmpty (stateBefore raws i)"
    using Suc.IH by simp
  then have "inDialogueContext (snd (classifyLine (stateBefore raws i) (raws ! i)))
      \<longrightarrow> \<not> lastLineWasEmpty (snd (classifyLine (stateBefore raws i) (raws ! i)))"
    using classifyLine_flags [of "stateBefore raws i" "raws ! i"] by blast
  then show ?case
    using i by (simp add: stateBefore_Suc)
qed

lemma stateBefore_flags:
  assumes "i < length (splitOn 10 content)"
  shows "(lastLineWasEmpty (stateBefore (splitOn 10 content) i)
           \<longleftrightarrow> i = 0 \<or> type (parseFountain content ! (i - 1)) = Empty)
     \<and> (inDialogueContext (stateBefore (splitOn 10 content) i)
           \<longleftrightarrow> i \<noteq> 0 \<and> inDialogueType (type (parseFountain content ! (i - 1))))"
proof (cases i)
  case 0
  then show ?thesis
    by (simp add: stateBefore_0 initialState_def inDialogueContext_def)
next
  case (Suc k)
  with assms have k: "k < length (splitOn 10 content)" by simp
  have wf: "inDialogueContext (stateBefore (splitOn 10 content) k)
      \<longrightarrow> \<not> lastLineWasEmpty (stateBefore (splitOn 10 content) k)"
    using k by (intro stateBefore_wf) simp
  show ?thesis
    using classifyLine_flags [OF wf, of "splitOn 10 content ! k"] k Suc
    by (simp add: stateBefore_Suc parseFountain_nth)
qed

lemma classifyLine_Action_iff:
  "type (fst (classifyLine st rawLine)) = Action \<longleftrightarrow>
     trim rawLine \<noteq> []
     \<and> \<not> matches sceneHeadingRx (trim rawLine)
     \<and> \<not> matches centeredRx (trim rawLine)
     \<and> \<not> matches sectionRx (trim rawLine)
     \<and> \<not> matches transitionRx (trim rawLine)
     \<and> \<not> (lastLineWasEmpty st \<and> matches characterRx rawLine)
     \<and> \<not> inDialogueContext st"
  by (auto simp: classifyLine_def classifyText_def Let_def)

text \<open>
  C4. \<^verbatim>\<open>parseFountain\<close> is a total function. Its result has one entry for each line of
  the text split at line feeds, which are one more than the line feeds of the text, and
  the entries carry these lines in order as their raw text. A line that is not blank, that
  no pattern claims and that stands outside a dialogue gets the type \<open>Action\<close> from the
  loop body. In the result, every entry is what the loop body gives for its line at the
  flags reached there, and an entry has the type \<open>Action\<close> exactly when its line is not
  blank, is no scene heading, centered line, section heading or transition, is no character
  cue at the start of the text or after an entry of type \<open>Empty\<close>, and does not follow an
  entry of a dialogue (\<open>Character\<close>, \<open>Parenthetical\<close>, \<open>Dialogue\<close> or
  \<open>DialogueBlank\<close>): the line that nothing recognises falls back to \<open>Action\<close>.
\<close>

theorem parseFountain_one_line_each:
  "length (parseFountain content) = length (splitOn 10 content)
   \<and> length (splitOn 10 content) = Suc (count_list content 10)
   \<and> map rawText (parseFountain content) = splitOn 10 content
   \<and> (\<forall>st rawLine.
         trim rawLine \<noteq> []
         \<and> \<not> matches sceneHeadingRx (trim rawLine)
         \<and> \<not> matches centeredRx (trim rawLine)
         \<and> \<not> matches sectionRx (trim rawLine)
         \<and> \<not> matches transitionRx (trim rawLine)
         \<and> \<not> (lastLineWasEmpty st \<and> matches characterRx rawLine)
         \<and> \<not> inDialogueContext st
         \<longrightarrow> type (fst (classifyLine st rawLine)) = Action)
   \<and> (\<forall>i<length (splitOn 10 content).
         parseFountain content ! i
           = fst (classifyLine (stateBefore (splitOn 10 content) i) (splitOn 10 content ! i))
         \<and> (type (parseFountain content ! i) = Action \<longleftrightarrow>
              trim (splitOn 10 content ! i) \<noteq> []
              \<and> \<not> matches sceneHeadingRx (trim (splitOn 10 content ! i))
              \<and> \<not> matches centeredRx (trim (splitOn 10 content ! i))
              \<and> \<not> matches sectionRx (trim (splitOn 10 content ! i))
              \<and> \<not> matches transitionRx (trim (splitOn 10 content ! i))
              \<and> \<not> ((i = 0 \<or> type (parseFountain content ! (i - 1)) = Empty)
                     \<and> matches characterRx (splitOn 10 content ! i))
              \<and> (i = 0 \<or> \<not> inDialogueType (type (parseFountain content ! (i - 1))))))"
proof -
  have a: "length (parseFountain content) = length (splitOn 10 content)"
    by (simp add: parseFountain_def length_parseLines)
  have b: "length (splitOn 10 content) = Suc (count_list content 10)"
    by (rule length_splitOn)
  have c: "map rawText (parseFountain content) = splitOn 10 content"
    by (simp add: parseFountain_def map_rawText_parseLines)
  have d: "\<forall>st rawLine.
         trim rawLine \<noteq> []
         \<and> \<not> matches sceneHeadingRx (trim rawLine)
         \<and> \<not> matches centeredRx (trim rawLine)
         \<and> \<not> matches sectionRx (trim rawLine)
         \<and> \<not> matches transitionRx (trim rawLine)
         \<and> \<not> (lastLineWasEmpty st \<and> matches characterRx rawLine)
         \<and> \<not> inDialogueContext st
         \<longrightarrow> type (fst (classifyLine st rawLine)) = Action"
    by (simp add: classifyLine_fallback)
  have e: "\<forall>i<length (splitOn 10 content).
         parseFountain content ! i
           = fst (classifyLine (stateBefore (splitOn 10 content) i) (splitOn 10 content ! i))
         \<and> (type (parseFountain content ! i) = Action \<longleftrightarrow>
              trim (splitOn 10 content ! i) \<noteq> []
              \<and> \<not> matches sceneHeadingRx (trim (splitOn 10 content ! i))
              \<and> \<not> matches centeredRx (trim (splitOn 10 content ! i))
              \<and> \<not> matches sectionRx (trim (splitOn 10 content ! i))
              \<and> \<not> matches transitionRx (trim (splitOn 10 content ! i))
              \<and> \<not> ((i = 0 \<or> type (parseFountain content ! (i - 1)) = Empty)
                     \<and> matches characterRx (splitOn 10 content ! i))
              \<and> (i = 0 \<or> \<not> inDialogueType (type (parseFountain content ! (i - 1)))))"
  proof (intro allI impI)
    fix i assume i: "i < length (splitOn 10 content)"
    have n: "parseFountain content ! i
           = fst (classifyLine (stateBefore (splitOn 10 content) i) (splitOn 10 content ! i))"
      using i by (rule parseFountain_nth)
    have f: "(lastLineWasEmpty (stateBefore (splitOn 10 content) i)
           \<longleftrightarrow> i = 0 \<or> type (parseFountain content ! (i - 1)) = Empty)"
      "(inDialogueContext (stateBefore (splitOn 10 content) i)
           \<longleftrightarrow> i \<noteq> 0 \<and> inDialogueType (type (parseFountain content ! (i - 1))))"
      using stateBefore_flags [OF i] by blast+
    have "type (parseFountain content ! i) = Action \<longleftrightarrow>
              trim (splitOn 10 content ! i) \<noteq> []
              \<and> \<not> matches sceneHeadingRx (trim (splitOn 10 content ! i))
              \<and> \<not> matches centeredRx (trim (splitOn 10 content ! i))
              \<and> \<not> matches sectionRx (trim (splitOn 10 content ! i))
              \<and> \<not> matches transitionRx (trim (splitOn 10 content ! i))
              \<and> \<not> ((i = 0 \<or> type (parseFountain content ! (i - 1)) = Empty)
                     \<and> matches characterRx (splitOn 10 content ! i))
              \<and> (i = 0 \<or> \<not> inDialogueType (type (parseFountain content ! (i - 1))))"
      unfolding n classifyLine_Action_iff f [unfolded n] using f(1) n by auto
    with n show "parseFountain content ! i
           = fst (classifyLine (stateBefore (splitOn 10 content) i) (splitOn 10 content ! i))
         \<and> (type (parseFountain content ! i) = Action \<longleftrightarrow>
              trim (splitOn 10 content ! i) \<noteq> []
              \<and> \<not> matches sceneHeadingRx (trim (splitOn 10 content ! i))
              \<and> \<not> matches centeredRx (trim (splitOn 10 content ! i))
              \<and> \<not> matches sectionRx (trim (splitOn 10 content ! i))
              \<and> \<not> matches transitionRx (trim (splitOn 10 content ! i))
              \<and> \<not> ((i = 0 \<or> type (parseFountain content ! (i - 1)) = Empty)
                     \<and> matches characterRx (splitOn 10 content ! i))
              \<and> (i = 0 \<or> \<not> inDialogueType (type (parseFountain content ! (i - 1)))))"
      by (rule conjI)
  qed
  from a b c d e show ?thesis by (intro conjI)
qed

theorem parseFountain_one_line_each_witness:
  "length (parseFountain (cu ''He leaves.\<newline>Slowly.'')) = 2
   \<and> map type (parseFountain (cu ''He leaves.\<newline>Slowly.'')) = [Action, Action]
   \<and> type (fst (classifyLine (initialState\<lparr>lastLineWasEmpty := False\<rparr>) (cu ''Slowly.''))) = Action"
proof -
  let ?C = "cu ''He leaves.\<newline>Slowly.''"
  let ?st = "initialState\<lparr>lastLineWasEmpty := False\<rparr>"
  let ?raw = "cu ''Slowly.''"
  have sp: "splitOn 10 ?C = [cu ''He leaves.'', cu ''Slowly.'']"
    by (simp add: cu_def)
  have c: "count_list ?C 10 = 1"
    by (simp add: cu_def)
  note t = parseFountain_one_line_each [of ?C, unfolded sp]
  have len: "length (parseFountain ?C) = 2"
    using t by simp
  have h: "trim ?raw \<noteq> []
         \<and> \<not> matches sceneHeadingRx (trim ?raw)
         \<and> \<not> matches centeredRx (trim ?raw)
         \<and> \<not> matches sectionRx (trim ?raw)
         \<and> \<not> matches transitionRx (trim ?raw)
         \<and> \<not> matches characterRx ?raw
         \<and> \<not> inDialogueContext ?st"
    by (simp add: rx_defs ch_defs cl_defs upTo_numeral)
  have h0: "trim (cu ''He leaves.'') \<noteq> []
         \<and> \<not> matches sceneHeadingRx (trim (cu ''He leaves.''))
         \<and> \<not> matches centeredRx (trim (cu ''He leaves.''))
         \<and> \<not> matches sectionRx (trim (cu ''He leaves.''))
         \<and> \<not> matches transitionRx (trim (cu ''He leaves.''))
         \<and> \<not> matches characterRx (cu ''He leaves.'')"
    by (simp add: rx_defs ch_defs cl_defs upTo_numeral)
  note e = t [THEN conjunct2, THEN conjunct2, THEN conjunct2, THEN conjunct2, rule_format]
  have t0: "type (parseFountain ?C ! 0) = Action"
    using e [of 0, THEN conjunct2] h0 by simp
  have "type (parseFountain ?C ! 1) = Action \<longleftrightarrow>
      trim ?raw \<noteq> []
      \<and> \<not> matches sceneHeadingRx (trim ?raw)
      \<and> \<not> matches centeredRx (trim ?raw)
      \<and> \<not> matches sectionRx (trim ?raw)
      \<and> \<not> matches transitionRx (trim ?raw)
      \<and> \<not> (type (parseFountain ?C ! 0) = Empty \<and> matches characterRx ?raw)
      \<and> \<not> inDialogueType (type (parseFountain ?C ! 0))"
    using e [of 1, THEN conjunct2] by simp
  then have t1: "type (parseFountain ?C ! 1) = Action"
    using h t0 by (simp add: inDialogueType_def)
  have "map type (parseFountain ?C) = [Action, Action]"
    using len t0 t1 by (simp add: list_eq_iff_nth_eq less_Suc_eq numeral_2_eq_2)
  moreover have "type (fst (classifyLine ?st ?raw)) = Action"
    using t h by blast
  ultimately show ?thesis using len by simp
qed

section \<open>What the patterns match\<close>

lemma matches_Nul: "\<not> matches Nul w"
  by (induction w) auto

lemma matches_Eps: "matches Eps w \<longleftrightarrow> w = []"
  by (cases w) (auto simp: matches_Nul)

lemma matches_Sym: "matches (Sym P) w \<longleftrightarrow> (\<exists>c. w = [c] \<and> P c)"
  by (cases w) (auto simp: matches_Nul matches_Eps)

lemma matches_Alt: "matches (Alt r s) w \<longleftrightarrow> matches r w \<or> matches s w"
  by (induction w arbitrary: r s) auto

lemma matches_Seq: "matches (Seq r s) w \<longleftrightarrow> (\<exists>u v. w = u @ v \<and> matches r u \<and> matches s v)"
proof (induction w arbitrary: r s)
  case Nil
  show ?case by simp
next
  case (Cons c w)
  have "(\<exists>u v. c # w = u @ v \<and> matches r u \<and> matches s v)
        \<longleftrightarrow> (nullable r \<and> matches (deriv c s) w)
            \<or> (\<exists>u v. w = u @ v \<and> matches (deriv c r) u \<and> matches s v)"
    (is "?L \<longleftrightarrow> ?A \<or> ?B")
  proof
    assume ?L
    then obtain u v where uv: "c # w = u @ v" "matches r u" "matches s v" by blast
    show "?A \<or> ?B"
    proof (cases u)
      case Nil
      with uv show ?thesis by auto
    next
      case (Cons d u')
      with uv have "w = u' @ v" "matches (deriv c r) u'" by auto
      with uv show ?thesis by blast
    qed
  next
    assume "?A \<or> ?B"
    then show ?L
    proof
      assume ?A
      then have "c # w = [] @ (c # w)" "matches r []" "matches s (c # w)" by auto
      then show ?L by blast
    next
      assume ?B
      then obtain u v where "w = u @ v" "matches (deriv c r) u" "matches s v" by blast
      then have "c # w = (c # u) @ v" "matches r (c # u)" "matches s v" by auto
      then show ?L by blast
    qed
  qed
  with Cons show ?case by (auto simp: matches_Alt)
qed

lemma matches_Seq_Nul: "\<not> matches (Seq Nul s) w"
  by (simp add: matches_Seq matches_Nul)

lemma matches_Seq_Eps: "matches (Seq Eps s) w \<longleftrightarrow> matches s w"
  by (simp add: matches_Seq matches_Eps)

lemma matches_Seq_Sym:
  "matches (Seq (Sym P) r) w \<longleftrightarrow> (\<exists>c v. w = c # v \<and> P c \<and> matches r v)"
  by (cases w) (auto simp: matches_Seq_Nul matches_Seq_Eps)

lemma matches_Star_Sym: "matches (Star (Sym P)) w \<longleftrightarrow> (\<forall>c\<in>set w. P c)"
  by (induction w) (auto simp: matches_Seq matches_Nul matches_Eps)

lemma matches_Seq_Star_Sym:
  "matches (Seq (Star (Sym P)) r) w
   \<longleftrightarrow> (\<exists>u v. w = u @ v \<and> (\<forall>c\<in>set u. P c) \<and> matches r v)"
  by (simp add: matches_Seq matches_Star_Sym)

lemma matches_strCI: "matches (strCI s) w \<longleftrightarrow> map canon w = cu s"
  by (induction s arbitrary: w) (auto simp: litCI_def cu_def matches_Eps matches_Seq_Sym)

lemma matches_Seq_strCI:
  "matches (Seq (strCI s) r) w
   \<longleftrightarrow> (\<exists>u v. w = u @ v \<and> map canon u = cu s \<and> matches r v)"
  by (simp add: matches_Seq matches_strCI)

lemma matches_Seq_Alt:
  "matches (Seq (Alt r1 r2) s) w \<longleftrightarrow> matches (Seq r1 s) w \<or> matches (Seq r2 s) w"
  by (auto simp: matches_Seq matches_Alt)

lemma matches_Seq_assoc:
  "matches (Seq (Seq r1 r2) s) w \<longleftrightarrow> matches (Seq r1 (Seq r2 s)) w"
  by (auto simp: matches_Seq) (metis append.assoc)+

lemmas rx_simps = matches_Nul matches_Eps matches_Sym matches_Alt matches_Seq_Nul
  matches_Seq_Eps matches_Seq_Sym matches_Star_Sym matches_Seq_Star_Sym matches_strCI
  matches_Seq_strCI matches_Seq_Alt matches_Seq_assoc

lemmas atom_defs = lit_def notLit_def ws_def dot_def anyChar_def opt_def rxPlus_def

lemma centeredRx_ends:
  assumes "matches centeredRx t"
  shows "t \<noteq> [] \<and> hd t = 62 \<and> last t = 60"
  using assms by (auto simp: centeredRx_def atom_defs rx_simps)

lemma sectionRx_starts:
  assumes "matches sectionRx t"
  shows "t \<noteq> [] \<and> hd t = 35"
  using assms by (auto simp: sectionRx_def atom_defs rx_simps)

lemma firstOk_ws: "\<forall>c\<in>set a. isWS c \<Longrightarrow> firstOk s \<Longrightarrow> firstOk (a @ s)"
  by (simp add: firstOk_def dropWhile_append2)

lemma firstOk_name:
  "\<forall>c\<in>set b. isUpper c \<or> isDigit c \<or> isWS c \<Longrightarrow> firstOk s \<Longrightarrow> firstOk (b @ s)"
  by (induction b) (auto simp: firstOk_def cueStart_def)

lemma firstOk_Nil: "firstOk []"
  by (simp add: firstOk_def)

lemma firstOk_caret: "firstOk [94]"
  by (simp add: firstOk_def cueStart_def isWS_def)

lemma firstOk_paren: "firstOk (32 # 40 # s)"
  by (simp add: firstOk_def cueStart_def isWS_def)

lemma characterRx_firstOk:
  assumes "matches characterRx raw"
  shows "firstOk raw"
proof -
  from assms obtain a b x y where raw: "raw = a @ b # x @ y"
    and a: "\<forall>c\<in>set a. isWS c"
    and b: "isUpper b \<or> isDigit b \<or> isWS b"
    and x: "\<forall>c\<in>set x. isUpper c \<or> isDigit c \<or> isWS c"
    and y: "matches (Seq (opt (Seq (lit CHR '' '') (Seq (lit CHR ''('')
                 (Seq (rxPlus (notLit CHR '')'')) (lit CHR '')'')))))
            (Seq (Star ws) (opt (lit CHR ''^'')))) y"
    by (auto simp: characterRx_def rxPlus_def ws_def rx_simps)
  have "firstOk y"
    using y by (auto simp: atom_defs rx_simps
        intro: firstOk_paren firstOk_ws firstOk_caret firstOk_Nil)
  then have "firstOk ((b # x) @ y)"
    using b x by (intro firstOk_name) auto
  then show ?thesis
    using a raw by (simp add: firstOk_ws)
qed

lemma trimEnd_prefix: "\<exists>z. d = trimEnd d @ z"
proof -
  have "rev d = takeWhile isWS (rev d) @ dropWhile isWS (rev d)" by simp
  then have "d = rev (dropWhile isWS (rev d)) @ rev (takeWhile isWS (rev d))"
    by (metis rev_append rev_rev_ident)
  then show ?thesis by (auto simp: trimEnd_def)
qed

lemma hd_trim:
  assumes "trim raw \<noteq> []"
  shows "dropWhile isWS raw \<noteq> [] \<and> hd (trim raw) = hd (dropWhile isWS raw)"
proof -
  obtain z where z: "dropWhile isWS raw = trim raw @ z"
    using trimEnd_prefix [of "dropWhile isWS raw"] by (auto simp: trim_def trimStart_def)
  with assms show ?thesis by (cases "trim raw") auto
qed

lemma characterRx_not_section:
  assumes "matches characterRx raw"
  shows "\<not> matches sectionRx (trim raw)"
proof
  assume s: "matches sectionRx (trim raw)"
  then have ne: "trim raw \<noteq> []" and h: "hd (trim raw) = 35"
    using sectionRx_starts by auto
  from hd_trim [OF ne] characterRx_firstOk [OF assms] h
  have "cueStart 35" by (auto simp: firstOk_def)
  then show False by (simp add: cueStart_def isUpper_def isDigit_def)
qed

lemma caret_not_centered:
  assumes "endsWith t 94"
  shows "\<not> matches centeredRx t"
  using assms centeredRx_ends [of t] by (auto simp: endsWith_def)

section \<open>The adjacent dual marker\<close>

lemma adjacent_dual_cue:
  assumes "inDialogueContext st"
    and "matches characterRx rawLine"
    and "endsWith (trim rawLine) 94"
    and "\<not> matches sceneHeadingRx (trim rawLine)"
    and "\<not> matches transitionRx (trim rawLine)"
  shows "classifyLine st rawLine =
      (\<lparr>type = Character, lineText = trim rawLine, rawText = rawLine\<rparr>,
       (setFlags True False False st)\<lparr>lastLineWasEmpty := False\<rparr>)"
proof -
  have "trim rawLine \<noteq> []"
    using assms(3) by (simp add: endsWith_def)
  moreover have "\<not> matches centeredRx (trim rawLine)"
    using assms(3) by (rule caret_not_centered)
  moreover have "\<not> matches sectionRx (trim rawLine)"
    using assms(2) by (rule characterRx_not_section)
  ultimately show ?thesis
    using assms by (simp add: classifyLine_def classifyText_def Let_def)
qed

text \<open>
  C6. In \<^verbatim>\<open>parseFountain\<close>, a line met inside a dialogue context whose raw text matches
  the character pattern, whose trimmed text ends with a caret and is neither a scene heading
  nor a transition, is classified \<open>Character\<close>, its text still ending with the caret, and
  the flags after it are those of a character cue. Nothing is asked of
  \<open>lastLineWasEmpty\<close>: no blank line need precede it.
\<close>

theorem adjacent_dual_marker_is_character:
  assumes "inDialogueContext st"
    and "matches characterRx rawLine"
    and "endsWith (trim rawLine) 94"
    and "\<not> matches sceneHeadingRx (trim rawLine)"
    and "\<not> matches transitionRx (trim rawLine)"
  shows "type (fst (classifyLine st rawLine)) = Character
    \<and> endsWith (lineText (fst (classifyLine st rawLine))) 94
    \<and> lastLineWasCharacter (snd (classifyLine st rawLine))
    \<and> \<not> lastLineWasParenthetical (snd (classifyLine st rawLine))
    \<and> \<not> lastLineWasDialogue (snd (classifyLine st rawLine))"
  using assms by (simp add: adjacent_dual_cue setFlags_def)

theorem adjacent_dual_marker_is_character_witness:
  "\<not> lastLineWasEmpty (snd (classifyLine (snd (classifyLine initialState (cu ''JOHN''))) (cu ''Hi!'')))
   \<and> type (fst (classifyLine
        (snd (classifyLine (snd (classifyLine initialState (cu ''JOHN''))) (cu ''Hi!'')))
        (cu ''JANE^''))) = Character"
proof -
  let ?st = "snd (classifyLine (snd (classifyLine initialState (cu ''JOHN''))) (cu ''Hi!''))"
  have st: "?st = \<lparr>lastLineWasCharacter = False, lastLineWasParenthetical = False,
      lastLineWasDialogue = True, lastLineWasEmpty = False\<rparr>"
    by (simp add: rx_defs ch_defs cl_defs upTo_numeral)
  have h: "inDialogueContext ?st \<and> matches characterRx (cu ''JANE^'')
      \<and> endsWith (trim (cu ''JANE^'')) 94
      \<and> \<not> matches sceneHeadingRx (trim (cu ''JANE^''))
      \<and> \<not> matches transitionRx (trim (cu ''JANE^''))"
    unfolding st by (simp add: rx_defs ch_defs cl_defs)
  from adjacent_dual_marker_is_character [of ?st "cu ''JANE^''"] h
  have "type (fst (classifyLine ?st (cu ''JANE^''))) = Character" by blast
  moreover have "\<not> lastLineWasEmpty ?st"
    unfolding st by simp
  ultimately show ?thesis by blast
qed

section \<open>The transition rule\<close>

lemma split_at_end:
  "(\<exists>w x. t = w @ x \<and> P w \<and> length x = n \<and> Q x)
   \<longleftrightarrow> n \<le> length t \<and> P (take (length t - n) t) \<and> Q (drop (length t - n) t)"
proof
  assume "\<exists>w x. t = w @ x \<and> P w \<and> length x = n \<and> Q x"
  then obtain w x where "t = w @ x" "P w" "length x = n" "Q x" by blast
  then show "n \<le> length t \<and> P (take (length t - n) t) \<and> Q (drop (length t - n) t)"
    by simp
next
  assume r: "n \<le> length t \<and> P (take (length t - n) t) \<and> Q (drop (length t - n) t)"
  have "t = take (length t - n) t @ drop (length t - n) t" by simp
  moreover have "length (drop (length t - n) t) = n" using r by simp
  ultimately show "\<exists>w x. t = w @ x \<and> P w \<and> length x = n \<and> Q x"
    using r by blast
qed

lemma toLine_matches:
  "matches (Seq (rxPlus (Sym (\<lambda>c. isUpper (canon c) \<or> isWS c))) (strCI ''TO:'')) t \<longleftrightarrow> toLine t"
proof -
  let ?P = "\<lambda>w. w \<noteq> [] \<and> (\<forall>c\<in>set w. isUpper (canon c) \<or> isWS c)"
  let ?Q = "\<lambda>x. map canon x = cu ''TO:''"
  have "matches (Seq (rxPlus (Sym (\<lambda>c. isUpper (canon c) \<or> isWS c))) (strCI ''TO:'')) t
        \<longleftrightarrow> (\<exists>w x. t = w @ x \<and> ?P w \<and> ?Q x)"
  proof
    assume "matches (Seq (rxPlus (Sym (\<lambda>c. isUpper (canon c) \<or> isWS c))) (strCI ''TO:'')) t"
    then obtain c u x where "t = c # u @ x" "isUpper (canon c) \<or> isWS c"
      "\<forall>c\<in>set u. isUpper (canon c) \<or> isWS c" "?Q x"
      by (auto simp: rxPlus_def rx_simps simp del: strCI.simps)
    then have "t = (c # u) @ x \<and> ?P (c # u) \<and> ?Q x" by simp
    then show "\<exists>w x. t = w @ x \<and> ?P w \<and> ?Q x" by blast
  next
    assume "\<exists>w x. t = w @ x \<and> ?P w \<and> ?Q x"
    then obtain w x where wx: "t = w @ x" "?P w" "?Q x" by blast
    then obtain c u where "w = c # u" by (cases w) auto
    with wx show "matches (Seq (rxPlus (Sym (\<lambda>c. isUpper (canon c) \<or> isWS c))) (strCI ''TO:'')) t"
      by (auto simp: rxPlus_def rx_simps simp del: strCI.simps)
  qed
  also have "\<dots> \<longleftrightarrow> (\<exists>w x. t = w @ x \<and> ?P w \<and> length x = 3 \<and> ?Q x)"
    by (metis (no_types, lifting) length_map cu_def length_Cons list.size(3) numeral_3_eq_3)
  also have "\<dots> \<longleftrightarrow> 3 \<le> length t \<and> ?P (take (length t - 3) t) \<and> ?Q (drop (length t - 3) t)"
    by (rule split_at_end)
  also have "\<dots> \<longleftrightarrow> toLine t"
    by (auto simp: toLine_def list_all_iff)
  finally show ?thesis .
qed

lemma forced_matches:
  "matches (Seq (lit CHR ''>'') (Seq (Star dot) (notLit CHR ''<''))) t \<longleftrightarrow> forcedTransition t"
proof
  assume "matches (Seq (lit CHR ''>'') (Seq (Star dot) (notLit CHR ''<''))) t"
  then obtain u c where "t = 62 # u @ [c]" "\<forall>x\<in>set u. \<not> isLineTerminator x" "c \<noteq> 60"
    by (auto simp: atom_defs rx_simps)
  then show "forcedTransition t"
    by (simp add: forcedTransition_def list_all_iff butlast_append)
next
  assume f: "forcedTransition t"
  then have len: "2 \<le> length t" and "hd t = 62"
    by (simp_all add: forcedTransition_def)
  then obtain v where t: "t = 62 # v"
    by (cases t) auto
  with len have "v \<noteq> []" by auto
  then have v: "v = butlast v @ [last v]" by simp
  have "\<forall>x\<in>set (butlast v). \<not> isLineTerminator x" and "last v \<noteq> 60"
    using f t \<open>v \<noteq> []\<close> by (auto simp: forcedTransition_def list_all_iff)
  with t v show "matches (Seq (lit CHR ''>'') (Seq (Star dot) (notLit CHR ''<''))) t"
    by (auto simp: atom_defs rx_simps)
qed

lemma transitionRx_iff: "matches transitionRx t \<longleftrightarrow> transitionLine t"
  unfolding transitionRx_def transitionLine_def
  by (simp only: matches_Alt toLine_matches forced_matches matches_strCI)

lemma transitionLine_Nil: "\<not> transitionLine []"
  by (simp add: transitionLine_def toLine_def forcedTransition_def cu_def)

text \<open>
  C7, as stated, fails: the pattern carries the \<^verbatim>\<open>i\<close> flag, so the lower-case line
  \<open>cut to:\<close> is classified \<open>Transition\<close>, though it is none of the lines that the
  specification describes.
\<close>

theorem lowercase_transition_counterexample:
  "type (fst (classifyLine initialState (cu ''cut to:''))) = Transition
   \<and> \<not> specTransition (trim (cu ''cut to:''))"
  by (simp add: rx_defs ch_defs cl_defs upTo_numeral specTransition_def startsWith_def)

text \<open>
  C7, amended. A line is classified \<open>Transition\<close> by \<^verbatim>\<open>parseFountain\<close> exactly when its
  trimmed text is not a scene heading, not centered and not a section heading, and is a
  transition line compared without regard to case: letters and white space followed by
  \<open>TO:\<close>, or one of the three fixed lines, or \<open>>\<close> followed by at least one more
  character, the last of them not \<open><\<close>, with no line terminator in between.
\<close>

theorem transition_exactly_when:
  "type (fst (classifyLine st rawLine)) = Transition
   \<longleftrightarrow> \<not> matches sceneHeadingRx (trim rawLine)
       \<and> \<not> matches centeredRx (trim rawLine)
       \<and> \<not> matches sectionRx (trim rawLine)
       \<and> transitionLine (trim rawLine)"
proof (cases "trim rawLine = []")
  case True
  then show ?thesis
    by (simp add: classifyLine_def Let_def transitionLine_Nil)
next
  case False
  then show ?thesis
    by (simp add: classifyLine_def classifyText_def Let_def transitionRx_iff)
qed

theorem transition_exactly_when_witness:
  "type (fst (classifyLine initialState (cu ''> Fade in''))) = Transition"
proof -
  have "\<not> matches sceneHeadingRx (trim (cu ''> Fade in''))
       \<and> \<not> matches centeredRx (trim (cu ''> Fade in''))
       \<and> \<not> matches sectionRx (trim (cu ''> Fade in''))
       \<and> transitionLine (trim (cu ''> Fade in''))"
    by (simp add: rx_defs ch_defs cl_defs upTo_numeral transitionLine_def toLine_def
        forcedTransition_def)
  with transition_exactly_when [of initialState "cu ''> Fade in''"]
  show ?thesis by blast
qed

section \<open>Dialogue continuation\<close>

lemma classifyText_dialogue:
  assumes "fst (classifyText st rawLine trimmed) = Dialogue"
  shows "lastLineWasDialogue (snd (classifyText st rawLine trimmed))"
  using assms by (auto simp: classifyText_def setFlags_def split: if_splits)

lemma dialogue_sets_flag:
  assumes "type (fst (classifyLine st rawLine)) = Dialogue"
  shows "lastLineWasDialogue (snd (classifyLine st rawLine))"
proof (cases "trim rawLine = []")
  case True
  with assms show ?thesis
    by (simp add: classifyLine_def split: if_splits)
next
  case False
  obtain ty st' where c: "classifyText st rawLine (trim rawLine) = (ty, st')"
    by (cases "classifyText st rawLine (trim rawLine)")
  with False assms have "ty = Dialogue"
    by (simp add: classifyLine_def Let_def)
  with classifyText_dialogue [of st rawLine "trim rawLine"] c
  have "lastLineWasDialogue st'" by simp
  with False c show ?thesis
    by (simp add: classifyLine_def Let_def)
qed

lemma blank_in_dialogue:
  assumes "rawLine \<noteq> []" and "trim rawLine = []" and "inDialogueContext st"
  shows "classifyLine st rawLine = (\<lparr>type = DialogueBlank, lineText = [], rawText = rawLine\<rparr>, st)"
  using assms by (simp add: classifyLine_def)

lemma blank_outside_dialogue:
  assumes "trim rawLine = []" and "\<not> inDialogueContext st"
  shows "type (fst (classifyLine st rawLine)) = Empty"
  using assms by (simp add: classifyLine_def)

lemma parseLines_after_dialogue:
  assumes "Suc i < length raws"
    and "type (parseLines st raws ! i) = Dialogue"
    and "raws ! Suc i \<noteq> []" and "trim (raws ! Suc i) = []"
  shows "type (parseLines st raws ! Suc i) = DialogueBlank"
  using assms
proof (induction raws arbitrary: st i)
  case Nil
  then show ?case by simp
next
  case (Cons r rs)
  obtain fl st' where c: "classifyLine st r = (fl, st')"
    by (cases "classifyLine st r")
  show ?case
  proof (cases i)
    case 0
    with Cons.prems obtain r2 rs' where rs: "rs = r2 # rs'"
      by (cases rs) auto
    from 0 Cons.prems c have "type fl = Dialogue" by simp
    then have "lastLineWasDialogue st'"
      using dialogue_sets_flag [of st r] c by simp
    then have "inDialogueContext st'"
      by (simp add: inDialogueContext_def)
    moreover have "r2 \<noteq> []" "trim r2 = []"
      using 0 Cons.prems rs by simp_all
    ultimately have "classifyLine st' r2 = (\<lparr>type = DialogueBlank, lineText = [], rawText = r2\<rparr>, st')"
      by (simp add: blank_in_dialogue)
    with 0 c rs show ?thesis by simp
  next
    case (Suc j)
    with Cons.prems c have "Suc j < length rs" "type (parseLines st' rs ! j) = Dialogue"
      "rs ! Suc j \<noteq> []" "trim (rs ! Suc j) = []"
      by simp_all
    then have "type (parseLines st' rs ! Suc j) = DialogueBlank"
      by (rule Cons.IH)
    with Suc c show ?thesis by simp
  qed
qed

lemma collectFrom_takeWhile:
  "collectFrom lines j =
     takeWhile (\<lambda>l. type l = Dialogue \<or> type l = Parenthetical \<or> type l = DialogueBlank)
       (drop j lines)"
proof (induction lines j rule: collectFrom.induct)
  case (1 lines j)
  show ?case
  proof (cases "j < length lines")
    case True
    then have d: "drop j lines = lines ! j # drop (Suc j) lines"
      by (simp add: Cons_nth_drop_Suc)
    show ?thesis
      using 1 True by (subst collectFrom.simps) (simp add: d)
  next
    case False
    then show ?thesis
      by (subst collectFrom.simps) simp
  qed
qed

lemma collectDialogueBlock_takeWhile:
  assumes "i < length lines" and "type (lines ! i) = Character"
  shows "collectDialogueBlock lines i =
     lines ! i # takeWhile (\<lambda>l. type l = Dialogue \<or> type l = Parenthetical \<or> type l = DialogueBlank)
       (drop (Suc i) lines)"
  using assms by (simp add: collectDialogueBlock_def collectFrom_takeWhile)

text \<open>
  C5. In \<^verbatim>\<open>parseFountain\<close> a line of white space only, of length at least one, met in a
  dialogue context is classified \<open>DialogueBlank\<close> (the dialogue continuation) and leaves
  the flags as they were; the same holds for such a line right after a \<open>Dialogue\<close> line
  of the parsed text. Outside a dialogue context a line of white space only is \<open>Empty\<close>.
  \<^verbatim>\<open>collectDialogueBlock\<close> runs over dialogue continuation lines as over dialogue and
  parenthetical lines: they are part of the group and do not end it.
\<close>

theorem dialogue_continuation:
  "(rawLine \<noteq> [] \<and> trim rawLine = [] \<and> inDialogueContext st
      \<longrightarrow> classifyLine st rawLine
           = (\<lparr>type = DialogueBlank, lineText = [], rawText = rawLine\<rparr>, st))
   \<and> (trim rawLine = [] \<and> \<not> inDialogueContext st
      \<longrightarrow> type (fst (classifyLine st rawLine)) = Empty)
   \<and> (Suc i < length (parseFountain content) \<and> type (parseFountain content ! i) = Dialogue
        \<and> splitOn 10 content ! Suc i \<noteq> [] \<and> trim (splitOn 10 content ! Suc i) = []
      \<longrightarrow> type (parseFountain content ! Suc i) = DialogueBlank)
   \<and> (s < length lines \<and> type (lines ! s) = Character
      \<longrightarrow> collectDialogueBlock lines s
           = lines ! s # takeWhile (\<lambda>l. type l = Dialogue \<or> type l = Parenthetical
                                       \<or> type l = DialogueBlank) (drop (Suc s) lines))"
proof (intro conjI impI)
  assume "rawLine \<noteq> [] \<and> trim rawLine = [] \<and> inDialogueContext st"
  then show "classifyLine st rawLine
      = (\<lparr>type = DialogueBlank, lineText = [], rawText = rawLine\<rparr>, st)"
    by (simp add: blank_in_dialogue)
next
  assume "trim rawLine = [] \<and> \<not> inDialogueContext st"
  then show "type (fst (classifyLine st rawLine)) = Empty"
    by (simp add: blank_outside_dialogue)
next
  assume a: "Suc i < length (parseFountain content) \<and> type (parseFountain content ! i) = Dialogue
        \<and> splitOn 10 content ! Suc i \<noteq> [] \<and> trim (splitOn 10 content ! Suc i) = []"
  then have "Suc i < length (splitOn 10 content)"
    by (simp add: parseFountain_def length_parseLines)
  with a show "type (parseFountain content ! Suc i) = DialogueBlank"
    unfolding parseFountain_def by (intro parseLines_after_dialogue) simp_all
next
  assume "s < length lines \<and> type (lines ! s) = Character"
  then show "collectDialogueBlock lines s
      = lines ! s # takeWhile (\<lambda>l. type l = Dialogue \<or> type l = Parenthetical
                                  \<or> type l = DialogueBlank) (drop (Suc s) lines)"
    by (simp add: collectDialogueBlock_takeWhile)
qed

theorem dialogue_continuation_witness:
  "type (parseFountain (cu ''JOHN\<newline>Hi!\<newline>  \<newline>Bye.'') ! 2) = DialogueBlank
   \<and> collectDialogueBlock (parseFountain (cu ''JOHN\<newline>Hi!\<newline>  \<newline>Bye.'')) 0
      = parseFountain (cu ''JOHN\<newline>Hi!\<newline>  \<newline>Bye.'')
   \<and> type (fst (classifyLine initialState (cu ''  ''))) = Empty
   \<and> type (fst (classifyLine (setFlags False False True initialState) (cu ''  ''))) = DialogueBlank"
proof -
  let ?T = "cu ''JOHN\<newline>Hi!\<newline>  \<newline>Bye.''"
  have sp: "splitOn 10 ?T = [cu ''JOHN'', cu ''Hi!'', cu ''  '', cu ''Bye.'']"
    by (simp add: cu_def)
  have p: "parseFountain ?T =
      [\<lparr>type = Character, lineText = cu ''JOHN'', rawText = cu ''JOHN''\<rparr>,
       \<lparr>type = Dialogue, lineText = cu ''Hi!'', rawText = cu ''Hi!''\<rparr>,
       \<lparr>type = DialogueBlank, lineText = [], rawText = cu ''  ''\<rparr>,
       \<lparr>type = Dialogue, lineText = cu ''Bye.'', rawText = cu ''Bye.''\<rparr>]"
    unfolding parseFountain_def sp
    by (simp add: rx_defs ch_defs cl_defs upTo_numeral)
  have w: "cu ''  '' \<noteq> [] \<and> trim (cu ''  '') = []"
    by (simp add: ch_defs cl_defs)
  have c1: "\<not> inDialogueContext initialState"
    and c2: "inDialogueContext (setFlags False False True initialState)"
    by (simp_all add: cl_defs)
  have two: "(2::nat) = Suc 1" by simp
  note thm1 = dialogue_continuation [where rawLine = "cu ''  ''"
      and st = "setFlags False False True initialState" and content = ?T and i = 1
      and lines = "parseFountain ?T" and s = 0]
  note thm2 = dialogue_continuation [where rawLine = "cu ''  ''" and st = initialState
      and content = ?T and i = 1 and lines = "parseFountain ?T" and s = 0]
  have "type (parseFountain ?T ! Suc 1) = DialogueBlank"
    using thm1 w unfolding p sp by simp
  moreover have "collectDialogueBlock (parseFountain ?T) 0 = parseFountain ?T"
    using thm1 unfolding p by simp
  moreover have "type (fst (classifyLine initialState (cu ''  ''))) = Empty"
    using thm2 w c1 by blast
  moreover have "type (fst (classifyLine (setFlags False False True initialState) (cu ''  '')))
      = DialogueBlank"
    using thm1 w c2 by simp
  ultimately show ?thesis
    unfolding two by blast
qed

section \<open>The render tree of the preview\<close>

lemma skipEmpty_takeWhile:
  "skipEmpty lines c = c + length (takeWhile (\<lambda>l. type l = Empty) (drop c lines))"
proof (induction lines c rule: skipEmpty.induct)
  case (1 lines c)
  show ?case
  proof (cases "c < length lines")
    case True
    then have d: "drop c lines = lines ! c # drop (Suc c) lines"
      by (simp add: Cons_nth_drop_Suc)
    show ?thesis
      using 1 True by (subst skipEmpty.simps) (simp add: d)
  next
    case False
    then show ?thesis
      by (subst skipEmpty.simps) simp
  qed
qed

lemma drop_skipEmpty:
  "drop c lines = takeWhile (\<lambda>l. type l = Empty) (drop c lines) @ drop (skipEmpty lines c) lines"
proof -
  have "drop (skipEmpty lines c) lines
      = drop (length (takeWhile (\<lambda>l. type l = Empty) (drop c lines))) (drop c lines)"
    by (simp add: skipEmpty_takeWhile add.commute)
  also have "\<dots> = dropWhile (\<lambda>l. type l = Empty) (drop c lines)"
    by (simp add: dropWhile_eq_drop)
  finally show ?thesis by simp
qed

lemma drop_collectDialogueBlock:
  assumes "i < length lines" and "type (lines ! i) = Character"
  shows "drop i lines
     = collectDialogueBlock lines i @ drop (i + length (collectDialogueBlock lines i)) lines"
proof -
  let ?P = "\<lambda>l. type l = Dialogue \<or> type l = Parenthetical \<or> type l = DialogueBlank"
  let ?tw = "takeWhile ?P (drop (Suc i) lines)"
  have b: "collectDialogueBlock lines i = lines ! i # ?tw"
    using assms by (rule collectDialogueBlock_takeWhile)
  have "drop (i + length (collectDialogueBlock lines i)) lines
      = drop (length ?tw) (drop (Suc i) lines)"
    by (simp add: b add.commute)
  also have "\<dots> = dropWhile ?P (drop (Suc i) lines)"
    by (simp add: dropWhile_eq_drop)
  finally have "?tw @ drop (i + length (collectDialogueBlock lines i)) lines = drop (Suc i) lines"
    by simp
  then show ?thesis
    using assms b by (simp add: Cons_nth_drop_Suc)
qed

lemma assembleLoop_dual:
  assumes "i < length lines" and "dualAt lines i"
  shows "assembleLoop lines i =
     DualBlock (collectDialogueBlock lines i)
       (collectDialogueBlock lines (skipEmpty lines (i + length (collectDialogueBlock lines i))))
     # assembleLoop lines
         (skipEmpty lines (i + length (collectDialogueBlock lines i))
          + length (collectDialogueBlock lines
              (skipEmpty lines (i + length (collectDialogueBlock lines i)))))"
  using assms by (subst assembleLoop.simps) (simp add: dualAt_def)

lemma assembleLoop_single:
  assumes "i < length lines" and "\<not> dualAt lines i"
  shows "assembleLoop lines i = SingleLine (lines ! i) # assembleLoop lines (i + 1)"
  using assms by (subst assembleLoop.simps) (auto simp: dualAt_def)

lemma assembleLoop_end:
  assumes "\<not> i < length lines"
  shows "assembleLoop lines i = []"
  using assms by (subst assembleLoop.simps) simp

lemma assembleLoop_cases [case_names dual single finished]:
  assumes "\<And>lines i. i < length lines \<Longrightarrow> dualAt lines i \<Longrightarrow>
      P lines (skipEmpty lines (i + length (collectDialogueBlock lines i))
          + length (collectDialogueBlock lines
              (skipEmpty lines (i + length (collectDialogueBlock lines i))))) \<Longrightarrow> P lines i"
    and "\<And>lines i. i < length lines \<Longrightarrow> \<not> dualAt lines i \<Longrightarrow> P lines (i + 1) \<Longrightarrow> P lines i"
    and "\<And>lines i. \<not> i < length lines \<Longrightarrow> P lines i"
  shows "P lines i"
proof (induction lines i rule: assembleLoop.induct)
  case (1 lines i)
  show ?case
  proof (cases "i < length lines")
    case False
    then show ?thesis by (rule assms(3))
  next
    case True
    show ?thesis
    proof (cases "dualAt lines i")
      case True
      then have c: "type (lines ! i) = Character
          \<and> skipEmpty lines (i + length (collectDialogueBlock lines i)) < length lines
          \<and> type (lines ! skipEmpty lines (i + length (collectDialogueBlock lines i))) = Character
          \<and> endsWith (lineText (lines ! skipEmpty lines (i + length (collectDialogueBlock lines i)))) 94"
        unfolding dualAt_def .
      have "P lines (skipEmpty lines (i + length (collectDialogueBlock lines i))
          + length (collectDialogueBlock lines
              (skipEmpty lines (i + length (collectDialogueBlock lines i)))))"
        using \<open>i < length lines\<close> c by (rule 1(1))
      with \<open>i < length lines\<close> True show ?thesis
        by (rule assms(1))
    next
      case False
      then have c: "\<not> (type (lines ! i) = Character
          \<and> skipEmpty lines (i + length (collectDialogueBlock lines i)) < length lines
          \<and> type (lines ! skipEmpty lines (i + length (collectDialogueBlock lines i))) = Character
          \<and> endsWith (lineText (lines ! skipEmpty lines (i + length (collectDialogueBlock lines i)))) 94)"
        unfolding dualAt_def .
      have "P lines (i + 1)"
        using \<open>i < length lines\<close> c by (rule 1(2))
      with \<open>i < length lines\<close> False show ?thesis
        by (rule assms(2))
    qed
  qed
qed

lemma assembleLoop_cover:
  "filter (\<lambda>l. type l \<noteq> Empty) (flatten (assembleLoop lines i))
     = filter (\<lambda>l. type l \<noteq> Empty) (drop i lines)
   \<and> subseq (flatten (assembleLoop lines i)) (drop i lines)"
proof (induction lines i rule: assembleLoop_cases)
  case (dual lines i)
  let ?L = "collectDialogueBlock lines i"
  let ?a = "i + length ?L"
  let ?c = "skipEmpty lines ?a"
  let ?R = "collectDialogueBlock lines ?c"
  let ?n = "?c + length ?R"
  define G where "G = takeWhile (\<lambda>l. type l = Empty) (drop ?a lines)"
  let ?F = "flatten (assembleLoop lines ?n)"
  from dual have ch: "type (lines ! i) = Character" and c: "?c < length lines"
    and cc: "type (lines ! ?c) = Character"
    by (simp_all add: dualAt_def)
  have d1: "drop i lines = ?L @ drop ?a lines"
    using dual(1) ch by (rule drop_collectDialogueBlock)
  have d2: "drop ?a lines = G @ drop ?c lines"
    unfolding G_def by (rule drop_skipEmpty)
  have d3: "drop ?c lines = ?R @ drop ?n lines"
    using c cc by (rule drop_collectDialogueBlock)
  have "drop i lines = ?L @ drop ?a lines"
    by (rule d1)
  also have "\<dots> = ?L @ G @ drop ?c lines"
    by (rule arg_cong [OF d2])
  also have "\<dots> = ?L @ G @ ?R @ drop ?n lines"
    by (rule arg_cong [OF d3])
  finally have whole: "drop i lines = ?L @ G @ ?R @ drop ?n lines" .
  have g: "filter (\<lambda>l. type l \<noteq> Empty) G = []"
    unfolding G_def
    using set_takeWhileD [of _ "\<lambda>l. type l = Empty" "drop ?a lines"]
    by (auto simp: filter_empty_conv)
  have fl: "flatten (assembleLoop lines i) = ?L @ ?R @ ?F"
    using dual(1,2) by (simp add: assembleLoop_dual flatten_def)
  have s1: "subseq ?F (drop ?n lines)"
    using dual.IH by (rule conjunct2)
  have s2: "subseq (?R @ ?F) (?R @ drop ?n lines)"
    by (rule list_emb_append_mono [OF _ s1]) simp
  have s3: "subseq (?R @ ?F) (G @ ?R @ drop ?n lines)"
    using s2 by (rule list_emb_append2)
  have "subseq (?L @ ?R @ ?F) (?L @ G @ ?R @ drop ?n lines)"
    by (rule list_emb_append_mono [OF _ s3]) simp
  moreover have "filter (\<lambda>l. type l \<noteq> Empty) ?F
      = filter (\<lambda>l. type l \<noteq> Empty) (drop ?n lines)"
    using dual.IH by (rule conjunct1)
  then have "filter (\<lambda>l. type l \<noteq> Empty) (?L @ ?R @ ?F)
      = filter (\<lambda>l. type l \<noteq> Empty) (?L @ G @ ?R @ drop ?n lines)"
    by (simp only: filter_append g append_Nil)
  ultimately show ?case
    by (simp only: fl whole simp_thms)
next
  case (single lines i)
  then have "drop i lines = lines ! i # drop (i + 1) lines"
    by (simp add: Cons_nth_drop_Suc)
  with single show ?case
    by (simp add: assembleLoop_single flatten_def)
next
  case (finished lines i)
  then show ?case
    by (simp add: assembleLoop_end flatten_def)
qed

lemma collectDialogueBlock_types:
  "list_all (\<lambda>l. type l = Character \<or> type l = Dialogue \<or> type l = Parenthetical
                \<or> type l = DialogueBlank) (collectDialogueBlock lines i)"
proof (cases "i < length lines \<and> type (lines ! i) = Character")
  case True
  then show ?thesis
    using set_takeWhileD [of _ "\<lambda>l. type l = Dialogue \<or> type l = Parenthetical \<or> type l = DialogueBlank"
        "drop (Suc i) lines"]
    by (auto simp: collectDialogueBlock_takeWhile list_all_iff)
next
  case False
  then show ?thesis
    by (auto simp: collectDialogueBlock_def)
qed

lemma assembleLoop_shape:
  "list_all (\<lambda>node. dualShape node \<and> blockTypes node) (assembleLoop lines i)"
proof (induction lines i rule: assembleLoop_cases)
  case (dual lines i)
  let ?c = "skipEmpty lines (i + length (collectDialogueBlock lines i))"
  from dual have ch: "type (lines ! i) = Character" and c: "?c < length lines"
    and cc: "type (lines ! ?c) = Character" and ce: "endsWith (lineText (lines ! ?c)) 94"
    by (simp_all add: dualAt_def)
  have "dualShape (DualBlock (collectDialogueBlock lines i) (collectDialogueBlock lines ?c))"
    using dual(1) ch c cc ce by (simp add: collectDialogueBlock_def)
  moreover have "blockTypes (DualBlock (collectDialogueBlock lines i) (collectDialogueBlock lines ?c))"
    using collectDialogueBlock_types [of lines i] collectDialogueBlock_types [of lines ?c]
    by simp
  ultimately show ?case
    using dual by (simp add: assembleLoop_dual)
next
  case (single lines i)
  then show ?case by (simp add: assembleLoop_single)
next
  case (finished lines i)
  then show ?case by (simp add: assembleLoop_end)
qed

lemma htmlLoop_nodes: "htmlLoop lines i = concat (map nodeHtml (assembleLoop lines i))"
proof (induction lines i rule: assembleLoop_cases)
  case (dual lines i)
  then show ?case
    by (subst htmlLoop.simps) (simp add: assembleLoop_dual, simp add: dualAt_def)
next
  case (single lines i)
  then show ?case
    by (subst htmlLoop.simps) (simp add: assembleLoop_single, auto simp: dualAt_def)
next
  case (finished lines i)
  then show ?case
    by (subst htmlLoop.simps) (simp add: assembleLoop_end)
qed

text \<open>The lines that the turns of the loop pass over are the classified lines.\<close>

lemma spanLoop_dual:
  assumes "i < length lines" and "dualAt lines i"
  shows "spanLoop lines i =
     DualSpan (collectDialogueBlock lines i)
       (take (skipEmpty lines (i + length (collectDialogueBlock lines i))
               - (i + length (collectDialogueBlock lines i)))
          (drop (i + length (collectDialogueBlock lines i)) lines))
       (collectDialogueBlock lines (skipEmpty lines (i + length (collectDialogueBlock lines i))))
     # spanLoop lines
         (skipEmpty lines (i + length (collectDialogueBlock lines i))
          + length (collectDialogueBlock lines
              (skipEmpty lines (i + length (collectDialogueBlock lines i)))))"
  using assms by (subst spanLoop.simps) (simp add: dualAt_def)

lemma spanLoop_single:
  assumes "i < length lines" and "\<not> dualAt lines i"
  shows "spanLoop lines i = LineSpan (lines ! i) # spanLoop lines (i + 1)"
  using assms by (subst spanLoop.simps) (auto simp: dualAt_def)

lemma spanLoop_end:
  assumes "\<not> i < length lines"
  shows "spanLoop lines i = []"
  using assms by (subst spanLoop.simps) simp

lemma gap_takeWhile:
  "take (skipEmpty lines a - a) (drop a lines) = takeWhile (\<lambda>l. type l = Empty) (drop a lines)"
proof -
  have "take (skipEmpty lines a - a) (drop a lines)
      = take (length (takeWhile (\<lambda>l. type l = Empty) (drop a lines))) (drop a lines)"
    by (simp add: skipEmpty_takeWhile)
  also have "\<dots> = takeWhile (\<lambda>l. type l = Empty) (drop a lines)"
    by (simp add: takeWhile_eq_take [symmetric])
  finally show ?thesis .
qed

lemma spanLoop_tree:
  "map spanNode (spanLoop lines i) = assembleLoop lines i
   \<and> concat (map spanLines (spanLoop lines i)) = drop i lines
   \<and> list_all spanKinds (spanLoop lines i)"
proof (induction lines i rule: assembleLoop_cases)
  case (dual lines i)
  let ?L = "collectDialogueBlock lines i"
  let ?a = "i + length ?L"
  let ?c = "skipEmpty lines ?a"
  let ?R = "collectDialogueBlock lines ?c"
  let ?n = "?c + length ?R"
  define G where "G = takeWhile (\<lambda>l. type l = Empty) (drop ?a lines)"
  from dual have ch: "type (lines ! i) = Character" and c: "?c < length lines"
    and cc: "type (lines ! ?c) = Character"
    by (simp_all add: dualAt_def)
  have d1: "drop i lines = ?L @ drop ?a lines"
    using dual(1) ch by (rule drop_collectDialogueBlock)
  have d2: "drop ?a lines = G @ drop ?c lines"
    unfolding G_def by (rule drop_skipEmpty)
  have d3: "drop ?c lines = ?R @ drop ?n lines"
    using c cc by (rule drop_collectDialogueBlock)
  have "drop i lines = ?L @ drop ?a lines"
    by (rule d1)
  also have "\<dots> = ?L @ G @ drop ?c lines"
    by (rule arg_cong [OF d2])
  also have "\<dots> = ?L @ G @ ?R @ drop ?n lines"
    by (rule arg_cong [OF d3])
  finally have whole: "drop i lines = ?L @ G @ ?R @ drop ?n lines" .
  have g: "list_all (\<lambda>l. type l = Empty) G"
    unfolding G_def
    using set_takeWhileD [of _ "\<lambda>l. type l = Empty" "drop ?a lines"]
    by (auto simp: list_all_iff)
  have sl: "spanLoop lines i = DualSpan ?L G ?R # spanLoop lines ?n"
    unfolding G_def gap_takeWhile [symmetric] using dual(1,2) by (rule spanLoop_dual)
  have al: "assembleLoop lines i = DualBlock ?L ?R # assembleLoop lines ?n"
    using dual(1,2) by (rule assembleLoop_dual)
  have k: "spanKinds (DualSpan ?L G ?R)"
    using collectDialogueBlock_types [of lines i] collectDialogueBlock_types [of lines ?c] g
    by simp
  have "map spanNode (spanLoop lines i) = assembleLoop lines i"
    using dual.IH by (simp add: sl al)
  moreover have "concat (map spanLines (spanLoop lines i)) = ?L @ G @ ?R @ drop ?n lines"
    using dual.IH by (simp add: sl)
  moreover have "list_all spanKinds (spanLoop lines i)"
    using dual.IH k by (simp add: sl)
  ultimately show ?case
    by (simp only: whole simp_thms)
next
  case (single lines i)
  then have "drop i lines = lines ! i # drop (i + 1) lines"
    by (simp add: Cons_nth_drop_Suc)
  with single show ?case
    by (simp add: assembleLoop_single spanLoop_single)
next
  case (finished lines i)
  then show ?case
    by (simp add: assembleLoop_end spanLoop_end)
qed

lemma spans_tree:
  "map spanNode (spans lines) = assemble lines"
  "concat (map spanLines (spans lines)) = lines"
  "list_all spanKinds (spans lines)"
  using spanLoop_tree [of lines 0] by (simp_all add: spans_def assemble_def)

text \<open>
  No \<^verbatim>\<open>div\<close> of a line is one of the strings pushed around the columns, so the
  \<^verbatim>\<open>div\<close> elements of the lines can be read off the HTML of a node.
\<close>

lemma renderLine_no_tag: "\<not> isContainerTag (renderLine line)"
  by (simp add: renderLine_def isContainerTag_def cu_def Let_def)

lemma renderRight_no_tag: "\<not> isContainerTag (renderRight line)"
  by (simp add: renderRight_def renderLine_no_tag)

lemma nodeHtml_nodeDivs:
  "filter (\<lambda>part. \<not> isContainerTag part) (nodeHtml node) = nodeDivs node"
proof (cases node)
  case (SingleLine line)
  then show ?thesis by (simp add: renderLine_no_tag)
next
  case (DualBlock leftBlock rightBlock)
  have t: \<open>isContainerTag (cu ''<div class="fountain-dual-dialogue">'')\<close>
    \<open>isContainerTag (cu ''<div class="fountain-dual-col">'')\<close>
    \<open>isContainerTag (cu ''</div>'')\<close>
    by (simp_all add: isContainerTag_def)
  have l: "filter (\<lambda>part. \<not> isContainerTag part) (map renderLine leftBlock) = map renderLine leftBlock"
    by (simp add: filter_id_conv renderLine_no_tag)
  have r: "filter (\<lambda>part. \<not> isContainerTag part) (map renderRight rightBlock)
      = map renderRight rightBlock"
    by (simp add: filter_id_conv renderRight_no_tag)
  show ?thesis
    unfolding DualBlock nodeHtml.simps nodeDivs.simps dualParts_def filter_append l r
    using t by simp
qed

lemma nodeDivs_lines:
  "list_all2 (\<lambda>part line. part = renderLine line \<or> part = renderRight line)
     (nodeDivs node) (nodeLines node)"
proof (cases node)
  case (SingleLine line)
  then show ?thesis by simp
next
  case (DualBlock leftBlock rightBlock)
  have "list_all2 (\<lambda>part line. part = renderLine line \<or> part = renderRight line)
      (map renderLine leftBlock @ map renderRight rightBlock) (leftBlock @ rightBlock)"
    by (intro list_all2_appendI) (simp_all add: list_all2_map1 list_all2_same)
  then show ?thesis
    using DualBlock by simp
qed

lemma nodes_nodeDivs:
  "filter (\<lambda>part. \<not> isContainerTag part) (concat (map nodeHtml nodes))
     = concat (map nodeDivs nodes)"
  by (induction nodes) (simp_all add: nodeHtml_nodeDivs)

lemma nodes_divs:
  "list_all2 (\<lambda>part line. part = renderLine line \<or> part = renderRight line)
     (concat (map nodeDivs nodes)) (concat (map nodeLines nodes))"
proof (induction nodes)
  case Nil
  show ?case by simp
next
  case (Cons node nodes)
  then show ?case
    using nodeDivs_lines [of node] by (simp add: list_all2_appendI)
qed

section \<open>The dual dialogue pass of the editor\<close>

lemma fold_invariant:
  assumes "P s" and "\<And>x s. P s \<Longrightarrow> P (f x s)"
  shows "P (fold f xs s)"
  using assms(1) by (induction xs arbitrary: s) (simp_all add: assms(2))

lemma rightScan_go: "goRight decos k \<Longrightarrow> rightScan decos k = k # rightScan decos (k + 1)"
  by (subst rightScan.simps) (auto simp: goRight_def)

lemma rightScan_stop: "\<not> goRight decos k \<Longrightarrow> rightScan decos k = []"
  by (subst rightScan.simps) (auto simp: goRight_def)

lemma rightScan_induct [case_names go stop]:
  assumes "\<And>k. goRight decos k \<Longrightarrow> P (k + 1) \<Longrightarrow> P k"
    and "\<And>k. \<not> goRight decos k \<Longrightarrow> P k"
  shows "P k"
proof (induction "length decos - k" arbitrary: k rule: less_induct)
  case less
  show ?case
  proof (cases "goRight decos k")
    case True
    then have "length decos - (k + 1) < length decos - k"
      by (auto simp: goRight_def)
    then have "P (k + 1)" by (rule less)
    with True show ?thesis by (rule assms(1))
  next
    case False
    then show ?thesis by (rule assms(2))
  qed
qed

lemma rightScan_upt:
  "\<exists>k1\<ge>k. rightScan decos k = [k..<k1]
     \<and> (\<forall>x. k \<le> x \<and> x < k1 \<longrightarrow> decoType (decos ! x) = Dialogue
            \<or> decoType (decos ! x) = Parenthetical \<or> decoType (decos ! x) = Empty)"
proof (induction k rule: rightScan_induct [of decos])
  case (go k)
  let ?ok = "\<lambda>x. decoType (decos ! x) = Dialogue
            \<or> decoType (decos ! x) = Parenthetical \<or> decoType (decos ! x) = Empty"
  from go(2) obtain k1 where k1: "k + 1 \<le> k1" "rightScan decos (k + 1) = [k + 1..<k1]"
    "\<forall>x. k + 1 \<le> x \<and> x < k1 \<longrightarrow> ?ok x"
    by blast
  have "?ok k"
    using go(1) by (auto simp: goRight_def)
  have "rightScan decos k = [k..<k1]"
    using go(1) k1(1,2) by (simp add: rightScan_go upt_conv_Cons)
  moreover have "\<forall>x. k \<le> x \<and> x < k1 \<longrightarrow> ?ok x"
  proof (intro allI impI)
    fix x assume x: "k \<le> x \<and> x < k1"
    show "?ok x"
    proof (cases "x = k")
      case True
      with \<open>?ok k\<close> show ?thesis by simp
    next
      case False
      with x have "k + 1 \<le> x \<and> x < k1" by simp
      with k1(3) show ?thesis by blast
    qed
  qed
  moreover have "k \<le> k1" using k1(1) by simp
  ultimately show ?case by blast
next
  case (stop k)
  then have "rightScan decos k = [k..<k]"
    by (simp add: rightScan_stop)
  moreover have "\<forall>x. k \<le> x \<and> x < k \<longrightarrow> decoType (decos ! x) = Dialogue
            \<or> decoType (decos ! x) = Parenthetical \<or> decoType (decos ! x) = Empty"
    by auto
  ultimately show ?case by blast
qed

lemma midScan_upt:
  "\<exists>m\<le>n. midScan decos n acc = ([m..<n] @ acc, m)
     \<and> (\<forall>x. m \<le> x \<and> x < n \<longrightarrow> decoType (decos ! x) = Empty)"
proof (induction n arbitrary: acc)
  case 0
  show ?case by simp
next
  case (Suc f)
  show ?case
  proof (cases "decoType (decos ! f) = Empty")
    case True
    from Suc [of "f # acc"] obtain m where m: "m \<le> f"
      "midScan decos f (f # acc) = ([m..<f] @ f # acc, m)"
      "\<forall>x. m \<le> x \<and> x < f \<longrightarrow> decoType (decos ! x) = Empty"
      by blast
    have "midScan decos (Suc f) acc = ([m..<Suc f] @ acc, m)"
      using True m(1,2) by simp
    moreover have "\<forall>x. m \<le> x \<and> x < Suc f \<longrightarrow> decoType (decos ! x) = Empty"
      using True m(3) by (auto simp: less_Suc_eq)
    moreover have "m \<le> Suc f" using m(1) by simp
    ultimately show ?thesis by blast
  next
    case False
    then have "midScan decos (Suc f) acc = ([Suc f..<Suc f] @ acc, Suc f)"
      by simp
    moreover have "\<forall>x. Suc f \<le> x \<and> x < Suc f \<longrightarrow> decoType (decos ! x) = Empty"
      by auto
    ultimately show ?thesis by blast
  qed
qed

lemma leftScan_Suc:
  "leftScan decos (Suc f) acc =
     (if goLeft decos f then leftScan decos f (f # acc)
      else if decoType (decos ! f) = Character then f # acc
      else acc)"
  by (auto simp: goLeft_def)

lemma leftScan_upt:
  "\<exists>a\<le>n. leftScan decos n acc = [a..<n] @ acc
     \<and> (\<forall>x. a \<le> x \<and> x < n \<longrightarrow> decoType (decos ! x) = Character
           \<or> decoType (decos ! x) = Dialogue \<or> decoType (decos ! x) = Parenthetical
           \<or> decoType (decos ! x) = Empty)"
proof (induction n arbitrary: acc)
  case 0
  show ?case by simp
next
  case (Suc f)
  let ?ok = "\<lambda>x. decoType (decos ! x) = Character
           \<or> decoType (decos ! x) = Dialogue \<or> decoType (decos ! x) = Parenthetical
           \<or> decoType (decos ! x) = Empty"
  show ?case
  proof (cases "goLeft decos f")
    case True
    then have okf: "?ok f" by (auto simp: goLeft_def)
    from Suc [of "f # acc"] obtain a where a: "a \<le> f"
      "leftScan decos f (f # acc) = [a..<f] @ f # acc" "\<forall>x. a \<le> x \<and> x < f \<longrightarrow> ?ok x"
      by blast
    have "leftScan decos (Suc f) acc = [a..<Suc f] @ acc"
      using True a(1,2) by (simp add: leftScan_Suc del: leftScan.simps)
    moreover have "\<forall>x. a \<le> x \<and> x < Suc f \<longrightarrow> ?ok x"
      using okf a(3) by (auto simp: less_Suc_eq)
    moreover have "a \<le> Suc f" using a(1) by simp
    ultimately show ?thesis by blast
  next
    case False
    show ?thesis
    proof (cases "decoType (decos ! f) = Character")
      case True
      with False have "leftScan decos (Suc f) acc = [f..<Suc f] @ acc"
        by (simp add: leftScan_Suc del: leftScan.simps)
      moreover have "\<forall>x. f \<le> x \<and> x < Suc f \<longrightarrow> ?ok x"
        using True by (auto simp: less_Suc_eq)
      moreover have "f \<le> Suc f" by simp
      ultimately show ?thesis by blast
    next
      case c: False
      with False have "leftScan decos (Suc f) acc = [Suc f..<Suc f] @ acc"
        by (simp add: leftScan_Suc del: leftScan.simps)
      moreover have "\<forall>x. Suc f \<le> x \<and> x < Suc f \<longrightarrow> ?ok x"
        by auto
      ultimately show ?thesis by blast
    qed
  qed
qed

text \<open>No cue is found when a line that breaks the block comes first.\<close>

lemma leftScan_abort:
  assumes "f < n"
    and "\<forall>x. f < x \<and> x < n \<longrightarrow> decoType (decos ! x) = Dialogue
           \<or> decoType (decos ! x) = Parenthetical \<or> decoType (decos ! x) = Empty"
    and "\<not> goLeft decos f" and "decoType (decos ! f) \<noteq> Character"
    and "acc = [] \<or> decoType (decos ! hd acc) \<noteq> Character"
  shows "leftScan decos n acc = [] \<or> decoType (decos ! hd (leftScan decos n acc)) \<noteq> Character"
  using assms
proof (induction n arbitrary: acc)
  case 0
  then show ?case by simp
next
  case (Suc m)
  show ?case
  proof (cases "m = f")
    case True
    with Suc.prems have "leftScan decos (Suc m) acc = acc"
      by (simp add: leftScan_Suc del: leftScan.simps)
    with Suc.prems show ?thesis by simp
  next
    case False
    with Suc.prems have fm: "f < m" by simp
    with Suc.prems have tm: "decoType (decos ! m) = Dialogue
           \<or> decoType (decos ! m) = Parenthetical \<or> decoType (decos ! m) = Empty"
      by simp
    then have nc: "decoType (decos ! m) \<noteq> Character" by auto
    show ?thesis
    proof (cases "goLeft decos m")
      case True
      have "leftScan decos m (m # acc) = []
          \<or> decoType (decos ! hd (leftScan decos m (m # acc))) \<noteq> Character"
        using fm Suc.prems(2,3,4) nc by (intro Suc.IH) simp_all
      with True show ?thesis
        by (simp add: leftScan_Suc del: leftScan.simps)
    next
      case False
      with nc have "leftScan decos (Suc m) acc = acc"
        by (simp add: leftScan_Suc del: leftScan.simps)
      with Suc.prems show ?thesis by simp
    qed
  qed
qed

lemma dualStep_pairs:
  assumes "pairs decos j dp"
  shows "dualStep decos j dp =
     \<lparr>isDualProcessed =
        markProcessed (j # rightScan decos (j + 1))
          (markProcessed (fst (midScan decos j []))
            (markProcessed (leftGroupOf decos j) (isDualProcessed dp))),
      blocksToReplace = blocksToReplace dp @ [(leftGroupOf decos j, j # rightScan decos (j + 1))]\<rparr>"
proof -
  obtain mid findLeft where ms: "midScan decos j [] = (mid, findLeft)"
    by (cases "midScan decos j []")
  with assms show ?thesis
    by (simp add: dualStep_def pairs_def isMarker_def leftGroupOf_def Let_def)
qed

lemma dualStep_no_pair:
  assumes "\<not> pairs decos j dp"
  shows "dualStep decos j dp = dp"
proof -
  obtain mid findLeft where ms: "midScan decos j [] = (mid, findLeft)"
    by (cases "midScan decos j []")
  with assms show ?thesis
    by (auto simp: dualStep_def pairs_def isMarker_def leftGroupOf_def Let_def)
qed

lemma pair_shape:
  assumes "pairs decos j dp"
  shows "cueShape decos (leftGroupOf decos j, j # rightScan decos (j + 1))"
  using assms by (simp add: pairs_def isMarker_def cueShape_def)

lemma pair_span:
  assumes "pairs decos j dp"
  shows "spanTypes decos (leftGroupOf decos j, j # rightScan decos (j + 1))"
proof -
  let ?okL = "\<lambda>x. decoType (decos ! x) = Character
           \<or> decoType (decos ! x) = Dialogue \<or> decoType (decos ! x) = Parenthetical
           \<or> decoType (decos ! x) = Empty"
  obtain m where m: "m \<le> j" "midScan decos j [] = ([m..<j] @ [], m)"
    "\<forall>x. m \<le> x \<and> x < j \<longrightarrow> decoType (decos ! x) = Empty"
    using midScan_upt [of j decos "[]"] by blast
  obtain a where a: "a \<le> m" "leftScan decos m [] = [a..<m] @ []" "\<forall>x. a \<le> x \<and> x < m \<longrightarrow> ?okL x"
    using leftScan_upt [of m decos "[]"] by blast
  obtain k1 where k1: "j + 1 \<le> k1" "rightScan decos (j + 1) = [j + 1..<k1]"
    "\<forall>x. j + 1 \<le> x \<and> x < k1 \<longrightarrow> decoType (decos ! x) = Dialogue
            \<or> decoType (decos ! x) = Parenthetical \<or> decoType (decos ! x) = Empty"
    using rightScan_upt [of "j + 1" decos] by blast
  have lg: "leftGroupOf decos j = [a..<m]"
    using m(2) a(2) by (simp add: leftGroupOf_def)
  with assms have "a < m" by (auto simp: pairs_def)
  then have hd: "hd (leftGroupOf decos j) = a"
    using lg by simp
  have rg: "j # rightScan decos (j + 1) = [j..<k1]"
    using k1(1,2) by (simp add: upt_conv_Cons)
  have "[j..<k1] \<noteq> []" using k1(1) by simp
  then have "last [j..<k1] = k1 - 1"
    by (metis last_upt upt_eq_Nil_conv not_le)
  then have lst: "Suc (last (j # rightScan decos (j + 1))) = k1"
    using rg k1(1) by simp
  have cj: "decoType (decos ! j) = Character"
    using assms by (simp add: pairs_def isMarker_def)
  have "\<forall>x. a \<le> x \<and> x < k1 \<longrightarrow> ?okL x"
  proof (intro allI impI)
    fix x assume x: "a \<le> x \<and> x < k1"
    consider "x < m" | "m \<le> x \<and> x < j" | "x = j" | "j + 1 \<le> x"
      by linarith
    then show "?okL x"
    proof cases
      case 1 with x a(3) show ?thesis by blast
    next
      case 2 with m(3) show ?thesis by blast
    next
      case 3 with cj show ?thesis by simp
    next
      case 4 with x k1(3) show ?thesis by blast
    qed
  qed
  then show ?thesis
    unfolding spanTypes_def fst_conv snd_conv hd lst
    by (simp add: list_all_iff)
qed

lemma pair_aborts:
  assumes "f < j"
    and "breaksBlock (decoType (decos ! f))"
    and "\<forall>x. f < x \<and> x < j \<longrightarrow> decoType (decos ! x) = Dialogue
           \<or> decoType (decos ! x) = Parenthetical \<or> decoType (decos ! x) = Empty"
  shows "\<not> pairs decos j dp"
proof -
  obtain m where m: "m \<le> j" "midScan decos j [] = ([m..<j] @ [], m)"
    "\<forall>x. m \<le> x \<and> x < j \<longrightarrow> decoType (decos ! x) = Empty"
    using midScan_upt [of j decos "[]"] by blast
  have ne: "decoType (decos ! f) \<noteq> Empty" "decoType (decos ! f) \<noteq> Character"
    "decoType (decos ! f) \<noteq> Dialogue" "decoType (decos ! f) \<noteq> Parenthetical"
    using assms(2) by (auto simp: breaksBlock_def isSectionHeading_def)
  have "f < m"
  proof (rule ccontr)
    assume "\<not> f < m"
    with assms(1) have "m \<le> f \<and> f < j" by simp
    with m(3) ne(1) show False by blast
  qed
  moreover have "\<forall>x. f < x \<and> x < m \<longrightarrow> decoType (decos ! x) = Dialogue
           \<or> decoType (decos ! x) = Parenthetical \<or> decoType (decos ! x) = Empty"
    using assms(3) m(1) by auto
  moreover have "\<not> goLeft decos f"
    using ne by (simp add: goLeft_def)
  ultimately have "leftScan decos m [] = []
      \<or> decoType (decos ! hd (leftScan decos m [])) \<noteq> Character"
    using ne(2) by (intro leftScan_abort) simp_all
  then show ?thesis
    using m(2) by (auto simp: pairs_def leftGroupOf_def)
qed

lemma dualPass_blocks:
  "list_all (\<lambda>b. cueShape decos b \<and> spanTypes decos b) (blocksToReplace (dualPass decos))"
  unfolding dualPass_def
proof (rule fold_invariant)
  show "list_all (\<lambda>b. cueShape decos b \<and> spanTypes decos b)
     (blocksToReplace \<lparr>isDualProcessed = replicate (length decos) False, blocksToReplace = []\<rparr>)"
    by simp
next
  fix j and dp :: DualPass
  assume inv: "list_all (\<lambda>b. cueShape decos b \<and> spanTypes decos b) (blocksToReplace dp)"
  show "list_all (\<lambda>b. cueShape decos b \<and> spanTypes decos b)
     (blocksToReplace (dualStep decos j dp))"
  proof (cases "pairs decos j dp")
    case True
    with inv pair_shape [OF True] pair_span [OF True] show ?thesis
      by (simp add: dualStep_pairs)
  next
    case False
    with inv show ?thesis
      by (simp add: dualStep_no_pair)
  qed
qed

text \<open>The flagged lines are the lines of the blocks.\<close>

lemma fold_invariant_set:
  assumes "P s" and "\<And>x s. x \<in> set xs \<Longrightarrow> P s \<Longrightarrow> P (f x s)"
  shows "P (fold f xs s)"
  using assms
proof (induction xs arbitrary: s)
  case Nil
  then show ?case by simp
next
  case (Cons x xs)
  have "P (f x s)"
    using Cons.prems by simp
  then have "P (fold f xs (f x s))"
    using Cons.prems(2) by (intro Cons.IH) simp_all
  then show ?case by simp
qed

lemma markProcessed_length: "length (markProcessed grp flags) = length flags"
  unfolding markProcessed_def by (induction grp arbitrary: flags) simp_all

lemma markProcessed_nth:
  "i < length flags \<Longrightarrow> markProcessed grp flags ! i = (flags ! i \<or> i \<in> set grp)"
  unfolding markProcessed_def
proof (induction grp arbitrary: flags)
  case Nil
  show ?case by simp
next
  case (Cons x xs)
  have "fold (\<lambda>i fl. fl[i := True]) xs (flags[x := True]) ! i
      = ((flags[x := True]) ! i \<or> i \<in> set xs)"
    using Cons.prems by (intro Cons.IH) simp
  moreover have "(flags[x := True]) ! i = (flags ! i \<or> i = x)"
    using Cons.prems by (cases "i = x") simp_all
  ultimately show ?case
    by auto
qed

lemma rightScan_bound: "x \<in> set (rightScan decos k) \<Longrightarrow> x < length decos"
proof (induction k rule: rightScan_induct [of decos])
  case (go k)
  then show ?case
    by (auto simp: rightScan_go goRight_def)
next
  case (stop k)
  then show ?case
    by (simp add: rightScan_stop)
qed

lemma pair_groups:
  assumes "pairs decos j dp" and "j < length decos"
  shows "\<exists>a m k1. a < m \<and> m \<le> j \<and> j < k1 \<and> k1 \<le> length decos
     \<and> leftGroupOf decos j = [a..<m]
     \<and> fst (midScan decos j []) = [m..<j]
     \<and> j # rightScan decos (j + 1) = [j..<k1]"
proof -
  obtain m where m: "m \<le> j" "midScan decos j [] = ([m..<j] @ [], m)"
    using midScan_upt [of j decos "[]"] by blast
  obtain a where a: "a \<le> m" "leftScan decos m [] = [a..<m] @ []"
    using leftScan_upt [of m decos "[]"] by blast
  obtain k1 where k1: "j + 1 \<le> k1" "rightScan decos (j + 1) = [j + 1..<k1]"
    using rightScan_upt [of "j + 1" decos] by blast
  have lg: "leftGroupOf decos j = [a..<m]"
    using m(2) a(2) by (simp add: leftGroupOf_def)
  with assms(1) have am: "a < m" by (auto simp: pairs_def)
  have rg: "j # rightScan decos (j + 1) = [j..<k1]"
    using k1(1,2) by (simp add: upt_conv_Cons)
  have "k1 \<le> length decos"
  proof (cases "k1 = j + 1")
    case True
    with assms(2) show ?thesis by simp
  next
    case False
    with k1(1) have "k1 - 1 \<in> set [j + 1..<k1]" by simp
    then have "k1 - 1 < length decos"
      using rightScan_bound [of "k1 - 1" decos "j + 1"] k1(2) by simp
    then show ?thesis by simp
  qed
  moreover have "fst (midScan decos j []) = [m..<j]"
    using m(2) by simp
  ultimately show ?thesis
    using am m(1) k1(1) lg rg by (intro exI [of _ a] exI [of _ m] exI [of _ k1]) simp
qed

lemma dualStep_covered:
  assumes "covered decos dp" and "j < length decos"
  shows "covered decos (dualStep decos j dp)"
proof (cases "pairs decos j dp")
  case False
  with assms show ?thesis by (simp add: dualStep_no_pair)
next
  case True
  from pair_groups [OF True assms(2)] obtain a m k1 where
    g: "a < m" "m \<le> j" "j < k1" "k1 \<le> length decos"
    and lg: "leftGroupOf decos j = [a..<m]"
    and mg: "fst (midScan decos j []) = [m..<j]"
    and rg: "j # rightScan decos (j + 1) = [j..<k1]"
    by blast
  let ?fl = "markProcessed [j..<k1] (markProcessed [m..<j] (markProcessed [a..<m] (isDualProcessed dp)))"
  have ds: "dualStep decos j dp
      = \<lparr>isDualProcessed = ?fl, blocksToReplace = blocksToReplace dp @ [([a..<m], [j..<k1])]\<rparr>"
    using dualStep_pairs [OF True] by (simp only: lg mg rg)
  have len: "length (isDualProcessed dp) = length decos"
    using assms(1) by (simp add: covered_def)
  have fl: "?fl ! i = (isDualProcessed dp ! i \<or> (a \<le> i \<and> i < k1))" if "i < length decos" for i
    using that len g by (auto simp: markProcessed_nth markProcessed_length)
  have ib: "inBlock ([a..<m], [j..<k1]) i = (a \<le> i \<and> i < k1)" for i
  proof -
    have "hd [a..<m] = a" using g(1) by simp
    moreover have "last [j..<k1] = k1 - 1"
      using g(3) by (metis last_upt)
    ultimately show ?thesis
      using g(3) by (auto simp: inBlock_def)
  qed
  have 1: "length ?fl = length decos"
    using len by (simp add: markProcessed_length)
  have 2: "\<forall>i<length decos. ?fl ! i
      \<longrightarrow> (\<exists>b\<in>set (blocksToReplace dp @ [([a..<m], [j..<k1])]). inBlock b i)"
  proof (intro allI impI)
    fix i assume i: "i < length decos" and f: "?fl ! i"
    from f fl [OF i] consider "isDualProcessed dp ! i" | "a \<le> i \<and> i < k1"
      by blast
    then show "\<exists>b\<in>set (blocksToReplace dp @ [([a..<m], [j..<k1])]). inBlock b i"
    proof cases
      case 1
      with assms(1) i obtain b where "b \<in> set (blocksToReplace dp)" "inBlock b i"
        unfolding covered_def by blast
      then show ?thesis by auto
    next
      case 2
      with ib have "inBlock ([a..<m], [j..<k1]) i" by simp
      then show ?thesis by simp
    qed
  qed
  have 3: "\<forall>b\<in>set (blocksToReplace dp @ [([a..<m], [j..<k1])]). \<forall>i. inBlock b i
      \<longrightarrow> i < length decos \<and> ?fl ! i"
  proof (intro ballI allI impI)
    fix b i assume b: "b \<in> set (blocksToReplace dp @ [([a..<m], [j..<k1])])" and i: "inBlock b i"
    show "i < length decos \<and> ?fl ! i"
    proof (cases "b = ([a..<m], [j..<k1])")
      case True
      with i ib have r: "a \<le> i \<and> i < k1" by simp
      with g(4) have "i < length decos" by simp
      with r fl show ?thesis by simp
    next
      case False
      with b have "b \<in> set (blocksToReplace dp)" by simp
      with assms(1) i have "i < length decos \<and> isDualProcessed dp ! i"
        unfolding covered_def by blast
      with fl show ?thesis by simp
    qed
  qed
  from 1 2 3 show ?thesis
    unfolding ds covered_def by simp
qed

lemma dualPass_covered: "covered decos (dualPass decos)"
  unfolding dualPass_def
proof (rule fold_invariant_set)
  show "covered decos \<lparr>isDualProcessed = replicate (length decos) False, blocksToReplace = []\<rparr>"
    by (simp add: covered_def)
next
  fix j and dp :: DualPass
  assume "j \<in> set [0..<length decos]" and "covered decos dp"
  then show "covered decos (dualStep decos j dp)"
    by (intro dualStep_covered) simp_all
qed

lemma lineDecorations_decorated:
  "lineDecorations decos flags =
     map (\<lambda>i. (lineNum (decos ! i), cu ''fountain-'' @ typeName (decoType (decos ! i))))
       (decoratedLines decos flags)"
  by (simp add: lineDecorations_def decoratedLines_def)

text \<open>The right group over a run of dialogue lines that ends at a line it does not take.\<close>

lemma rightScan_run:
  assumes "a \<le> k" and "k \<le> length decos"
    and "\<forall>x. a \<le> x \<and> x < k \<longrightarrow> decoType (decos ! x) = Dialogue
           \<or> decoType (decos ! x) = Parenthetical"
    and "\<not> goRight decos k"
  shows "rightScan decos a = [a..<k]"
  using assms
proof (induction "k - a" arbitrary: a)
  case 0
  then show ?case by (simp add: rightScan_stop)
next
  case (Suc d)
  then have ak: "a < k" by simp
  with Suc.prems have "goRight decos a"
    by (auto simp: goRight_def)
  moreover have "rightScan decos (a + 1) = [a + 1..<k]"
    using Suc.hyps(2) ak Suc.prems(2,3,4) by (intro Suc.hyps(1)) simp_all
  ultimately show ?case
    using ak by (simp add: rightScan_go upt_conv_Cons)
qed

section \<open>The dual dialogue example\<close>

lemma example_lines: "parseLines initialState dualExample =
  [\<lparr>type = Empty, lineText = [], rawText = []\<rparr>,
   \<lparr>type = Character, lineText = cu ''JOHN'', rawText = cu ''JOHN''\<rparr>,
   \<lparr>type = Dialogue, lineText = cu ''Hi!'', rawText = cu ''Hi!''\<rparr>,
   \<lparr>type = Empty, lineText = [], rawText = []\<rparr>,
   \<lparr>type = Character, lineText = cu ''JANE^'', rawText = cu ''JANE^''\<rparr>,
   \<lparr>type = Dialogue, lineText = cu ''Hey!'', rawText = cu ''Hey!''\<rparr>]"
  by (simp add: dualExample_def rx_defs ch_defs cl_defs upTo_numeral)

lemma example_tree: "assemble (parseLines initialState dualExample) =
  [SingleLine \<lparr>type = Empty, lineText = [], rawText = []\<rparr>,
   DualBlock
     [\<lparr>type = Character, lineText = cu ''JOHN'', rawText = cu ''JOHN''\<rparr>,
      \<lparr>type = Dialogue, lineText = cu ''Hi!'', rawText = cu ''Hi!''\<rparr>]
     [\<lparr>type = Character, lineText = cu ''JANE^'', rawText = cu ''JANE^''\<rparr>,
      \<lparr>type = Dialogue, lineText = cu ''Hey!'', rawText = cu ''Hey!''\<rparr>]]"
  unfolding example_lines
  by (simp add: loop_simps endsWith_def cu_def)

lemma example_decos: "classifyDoc dualExample =
  [\<lparr>lineNum = 1, decoType = Empty, decoText = []\<rparr>,
   \<lparr>lineNum = 2, decoType = Character, decoText = cu ''JOHN''\<rparr>,
   \<lparr>lineNum = 3, decoType = Dialogue, decoText = cu ''Hi!''\<rparr>,
   \<lparr>lineNum = 4, decoType = Empty, decoText = []\<rparr>,
   \<lparr>lineNum = 5, decoType = Character, decoText = cu ''JANE^''\<rparr>,
   \<lparr>lineNum = 6, decoType = Dialogue, decoText = cu ''Hey!''\<rparr>]"
  by (simp add: dualExample_def classifyDoc_def classifyDeco_def rx_defs ch_defs cl_defs)

lemma example_pass: "dualPass (classifyDoc dualExample) =
  \<lparr>isDualProcessed = [False, True, True, True, True, True],
   blocksToReplace = [([1, 2], [4, 5])]\<rparr>"
  unfolding example_decos
  by (simp add: dualPass_def dualStep_def loop_simps endsWith_def cu_def markProcessed_def
      Let_def upt_rec numeral_eq_Suc)

lemma example_line_decorations:
  "lineDecorations (classifyDoc dualExample)
     (isDualProcessed (dualPass (classifyDoc dualExample))) = []"
  unfolding example_pass unfolding example_decos
  by (simp add: lineDecorations_def upt_rec numeral_eq_Suc)

text \<open>
  In the editor a right group can serve again as the left group of the next marker: the two
  blocks below share the lines 4 and 5.
\<close>

lemma editor_blocks_share_lines:
  "blocksToReplace (dualPass (classifyDoc
       (map cu ['''', ''JOHN'', ''Hi!'', '''', ''JANE^'', ''Hey!'', '''', ''JIM^'', ''Ho!''])))
     = [([1, 2], [4, 5]), ([4, 5], [7, 8])]"
proof -
  have d: "classifyDoc
       (map cu ['''', ''JOHN'', ''Hi!'', '''', ''JANE^'', ''Hey!'', '''', ''JIM^'', ''Ho!'']) =
    [\<lparr>lineNum = 1, decoType = Empty, decoText = []\<rparr>,
     \<lparr>lineNum = 2, decoType = Character, decoText = cu ''JOHN''\<rparr>,
     \<lparr>lineNum = 3, decoType = Dialogue, decoText = cu ''Hi!''\<rparr>,
     \<lparr>lineNum = 4, decoType = Empty, decoText = []\<rparr>,
     \<lparr>lineNum = 5, decoType = Character, decoText = cu ''JANE^''\<rparr>,
     \<lparr>lineNum = 6, decoType = Dialogue, decoText = cu ''Hey!''\<rparr>,
     \<lparr>lineNum = 7, decoType = Empty, decoText = []\<rparr>,
     \<lparr>lineNum = 8, decoType = Character, decoText = cu ''JIM^''\<rparr>,
     \<lparr>lineNum = 9, decoType = Dialogue, decoText = cu ''Ho!''\<rparr>]"
    by (simp add: classifyDoc_def classifyDeco_def rx_defs ch_defs cl_defs)
  show ?thesis
    unfolding d
    by (simp add: dualPass_def dualStep_def loop_simps endsWith_def cu_def markProcessed_def
        Let_def upt_rec numeral_eq_Suc)
qed

text \<open>The three further texts, classified, and what the two paths make of them.\<close>

lemma scene_decos: "classifyDoc sceneExample =
    [\<lparr>lineNum = 1, decoType = Empty, decoText = []\<rparr>,
     \<lparr>lineNum = 2, decoType = Character, decoText = cu ''JOHN''\<rparr>,
     \<lparr>lineNum = 3, decoType = Dialogue, decoText = cu ''Hi!''\<rparr>,
     \<lparr>lineNum = 4, decoType = Empty, decoText = []\<rparr>,
     \<lparr>lineNum = 5, decoType = Character, decoText = cu ''JANE^''\<rparr>,
     \<lparr>lineNum = 6, decoType = Dialogue, decoText = cu ''Hey!''\<rparr>,
     \<lparr>lineNum = 7, decoType = SceneHeading, decoText = cu ''INT. HOUSE''\<rparr>]"
  by (simp add: sceneExample_def dualExample_def classifyDoc_def classifyDeco_def rx_defs ch_defs cl_defs)

lemma scene_pass: "dualPass (classifyDoc sceneExample) =
  \<lparr>isDualProcessed = [False, True, True, True, True, True, False],
   blocksToReplace = [([1, 2], [4, 5])]\<rparr>"
  unfolding scene_decos
  by (simp add: dualPass_def dualStep_def loop_simps endsWith_def cu_def markProcessed_def
      Let_def upt_rec numeral_eq_Suc)

lemma three_decos: "classifyDoc threeCues =
    [\<lparr>lineNum = 1, decoType = Empty, decoText = []\<rparr>,
     \<lparr>lineNum = 2, decoType = Character, decoText = cu ''JOHN''\<rparr>,
     \<lparr>lineNum = 3, decoType = Dialogue, decoText = cu ''Hi!''\<rparr>,
     \<lparr>lineNum = 4, decoType = Empty, decoText = []\<rparr>,
     \<lparr>lineNum = 5, decoType = Character, decoText = cu ''JANE^''\<rparr>,
     \<lparr>lineNum = 6, decoType = Dialogue, decoText = cu ''Hey!''\<rparr>,
     \<lparr>lineNum = 7, decoType = Empty, decoText = []\<rparr>,
     \<lparr>lineNum = 8, decoType = Character, decoText = cu ''JIM^''\<rparr>,
     \<lparr>lineNum = 9, decoType = Dialogue, decoText = cu ''Ho!''\<rparr>]"
  by (simp add: threeCues_def dualExample_def classifyDoc_def classifyDeco_def rx_defs ch_defs cl_defs)

lemma three_pass: "dualPass (classifyDoc threeCues) =
  \<lparr>isDualProcessed = [False, True, True, True, True, True, True, True, True],
   blocksToReplace = [([1, 2], [4, 5]), ([4, 5], [7, 8])]\<rparr>"
  unfolding three_decos
  by (simp add: dualPass_def dualStep_def loop_simps endsWith_def cu_def markProcessed_def
      Let_def upt_rec numeral_eq_Suc)

lemma example_spans: "spans (parseLines initialState dualExample) =
  [LineSpan \<lparr>type = Empty, lineText = [], rawText = []\<rparr>,
   DualSpan
     [\<lparr>type = Character, lineText = cu ''JOHN'', rawText = cu ''JOHN''\<rparr>,
      \<lparr>type = Dialogue, lineText = cu ''Hi!'', rawText = cu ''Hi!''\<rparr>]
     [\<lparr>type = Empty, lineText = [], rawText = []\<rparr>]
     [\<lparr>type = Character, lineText = cu ''JANE^'', rawText = cu ''JANE^''\<rparr>,
      \<lparr>type = Dialogue, lineText = cu ''Hey!'', rawText = cu ''Hey!''\<rparr>]]"
  unfolding example_lines
  by (simp add: spans_def spanLoop.simps loop_simps endsWith_def cu_def)

lemma action_lines: "parseLines initialState actionBetween =
  [\<lparr>type = Character, lineText = cu ''JOHN'', rawText = cu ''JOHN''\<rparr>,
   \<lparr>type = Dialogue, lineText = cu ''Hi!'', rawText = cu ''Hi!''\<rparr>,
   \<lparr>type = Empty, lineText = [], rawText = []\<rparr>,
   \<lparr>type = Action, lineText = cu ''He leaves.'', rawText = cu ''He leaves.''\<rparr>,
   \<lparr>type = Empty, lineText = [], rawText = []\<rparr>,
   \<lparr>type = Character, lineText = cu ''JANE^'', rawText = cu ''JANE^''\<rparr>,
   \<lparr>type = Dialogue, lineText = cu ''Hey!'', rawText = cu ''Hey!''\<rparr>]"
  by (simp add: actionBetween_def rx_defs ch_defs cl_defs upTo_numeral)

lemma action_tree:
  "assemble (parseLines initialState actionBetween)
     = map SingleLine (parseLines initialState actionBetween)"
  unfolding action_lines
  by (simp add: loop_simps endsWith_def cu_def)

text \<open>
  C1, as stated, fails in its count: of the six lines four are not empty, not five. The
  five lines marked processed are these four and the empty line between the two cues.
\<close>

theorem five_nonempty_lines_counterexample:
  "map decoType (classifyDoc dualExample)
     = [Empty, Character, Dialogue, Empty, Character, Dialogue]
   \<and> length (classifyDoc dualExample)
       - count_list (map decoType (classifyDoc dualExample)) Empty \<noteq> 5
   \<and> isDualProcessed (dualPass (classifyDoc dualExample)) ! 3
   \<and> decoType (classifyDoc dualExample ! 3) = Empty"
  unfolding example_pass unfolding example_decos by simp

text \<open>
  C1, amended. For the six lines \<open>""\<close>, \<open>JOHN\<close>, \<open>Hi!\<close>, \<open>""\<close>, \<open>JANE^\<close>, \<open>Hey!\<close>
  the editor's pass finds exactly one dual block, whose left group is the lines 1 and 2
  (\<open>Character JOHN\<close>, \<open>Dialogue Hi!\<close>) and whose right group is the lines 4 and 5
  (\<open>Character JANE^\<close>, \<open>Dialogue Hey!\<close>); it marks processed the four lines that are not
  empty and the empty line between the cues, leaves the first empty line unmarked, and
  has no line left to decorate by itself.
  The preview assembler gives the first empty line and then one dual block with the same
  two groups.
\<close>

theorem example_one_dual_block:
  "blocksToReplace (dualPass (classifyDoc dualExample)) = [([1, 2], [4, 5])]
   \<and> widgetLines (classifyDoc dualExample) [1, 2]
       = [(Character, cu ''JOHN''), (Dialogue, cu ''Hi!'')]
   \<and> widgetLines (classifyDoc dualExample) [4, 5]
       = [(Character, cu ''JANE^''), (Dialogue, cu ''Hey!'')]
   \<and> isDualProcessed (dualPass (classifyDoc dualExample))
       = [False, True, True, True, True, True]
   \<and> map decoType (classifyDoc dualExample)
       = [Empty, Character, Dialogue, Empty, Character, Dialogue]
   \<and> lineDecorations (classifyDoc dualExample)
         (isDualProcessed (dualPass (classifyDoc dualExample))) = []
   \<and> assemble (parseLines initialState dualExample)
       = [SingleLine \<lparr>type = Empty, lineText = [], rawText = []\<rparr>,
          DualBlock
            [\<lparr>type = Character, lineText = cu ''JOHN'', rawText = cu ''JOHN''\<rparr>,
             \<lparr>type = Dialogue, lineText = cu ''Hi!'', rawText = cu ''Hi!''\<rparr>]
            [\<lparr>type = Character, lineText = cu ''JANE^'', rawText = cu ''JANE^''\<rparr>,
             \<lparr>type = Dialogue, lineText = cu ''Hey!'', rawText = cu ''Hey!''\<rparr>]]"
  unfolding example_line_decorations unfolding example_pass example_tree
  unfolding example_decos
  by (simp add: widgetLines_def)

section \<open>Coverage of the classified lines\<close>

lemma example_parse:
  "parseFountain (cu ''\<newline>JOHN\<newline>Hi!\<newline>\<newline>JANE^\<newline>Hey!'') = parseLines initialState dualExample"
  by (simp add: parseFountain_def dualExample_def cu_def)

text \<open>
  C2, as stated, fails in the editor. Of the nine lines \<open>""\<close>, \<open>JOHN\<close>, \<open>Hi!\<close>,
  \<open>""\<close>, \<open>JANE^\<close>, \<open>Hey!\<close>, \<open>""\<close>, \<open>JIM^\<close>, \<open>Ho!\<close> the first is of type
  \<open>Empty\<close> and lies in no node: no line gets a decoration of its own, and the two blocks
  replace the lines 1 to 5 and 4 to 8. The lines 4 and 5 lie in both blocks.
\<close>

theorem editor_nodes_counterexample:
  "decoType (classifyDoc threeCues ! 0) = Empty
   \<and> blocksToReplace (dualPass (classifyDoc threeCues)) = [([1, 2], [4, 5]), ([4, 5], [7, 8])]
   \<and> lineDecorations (classifyDoc threeCues) (isDualProcessed (dualPass (classifyDoc threeCues))) = []
   \<and> \<not> inBlock ([1, 2], [4, 5]) 0 \<and> \<not> inBlock ([4, 5], [7, 8]) 0
   \<and> inBlock ([1, 2], [4, 5]) 4 \<and> inBlock ([4, 5], [7, 8]) 4"
  unfolding three_pass unfolding three_decos
  by (simp add: lineDecorations_def inBlock_def upt_rec numeral_eq_Suc)

text \<open>
  C2, amended. In the preview the turns of the loop pass over every classified line exactly
  once, in order: the lines of the nodes, a dual block taken with the lines between its two
  groups, are the classified lines, and the lines between the groups are of type \<open>Empty\<close>.
  In the editor every line that is not of type \<open>Empty\<close> lies in a node: a line that the
  dual pass has flagged lies in a block, and a line that it has not flagged has a line
  decoration of its own, in the order of the lines, and lies in no block. A line of type
  \<open>Empty\<close> that is not flagged has no decoration and lies in no block.
\<close>

theorem render_tree_covers_lines:
  "map spanNode (spans lines) = assemble lines
   \<and> concat (map spanLines (spans lines)) = lines
   \<and> list_all spanKinds (spans lines)
   \<and> (\<forall>i<length decos. decoType (decos ! i) \<noteq> Empty \<longrightarrow>
         (if isDualProcessed (dualPass decos) ! i
          then \<exists>b\<in>set (blocksToReplace (dualPass decos)). inBlock b i
          else i \<in> set (decoratedLines decos (isDualProcessed (dualPass decos)))))
   \<and> (\<forall>i\<in>set (decoratedLines decos (isDualProcessed (dualPass decos))).
         \<not> (\<exists>b\<in>set (blocksToReplace (dualPass decos)). inBlock b i))
   \<and> (\<forall>i<length decos. decoType (decos ! i) = Empty \<and> \<not> isDualProcessed (dualPass decos) ! i \<longrightarrow>
         i \<notin> set (decoratedLines decos (isDualProcessed (dualPass decos)))
         \<and> \<not> (\<exists>b\<in>set (blocksToReplace (dualPass decos)). inBlock b i))
   \<and> lineDecorations decos (isDualProcessed (dualPass decos))
       = map (\<lambda>i. (lineNum (decos ! i), cu ''fountain-'' @ typeName (decoType (decos ! i))))
           (decoratedLines decos (isDualProcessed (dualPass decos)))"
proof -
  let ?fl = "isDualProcessed (dualPass decos)"
  let ?bl = "blocksToReplace (dualPass decos)"
  have c: "covered decos (dualPass decos)"
    by (rule dualPass_covered)
  have c1: "\<forall>i<length decos. ?fl ! i \<longrightarrow> (\<exists>b\<in>set ?bl. inBlock b i)"
    using c unfolding covered_def by blast
  have c2: "\<forall>b\<in>set ?bl. \<forall>i. inBlock b i \<longrightarrow> i < length decos \<and> ?fl ! i"
    using c unfolding covered_def by blast
  have d: "i \<in> set (decoratedLines decos ?fl)
      \<longleftrightarrow> i < length decos \<and> \<not> ?fl ! i \<and> decoType (decos ! i) \<noteq> Empty" for i
    by (auto simp: decoratedLines_def)
  have e1: "\<forall>i<length decos. decoType (decos ! i) \<noteq> Empty \<longrightarrow>
         (if ?fl ! i then \<exists>b\<in>set ?bl. inBlock b i else i \<in> set (decoratedLines decos ?fl))"
    using c1 d by simp
  have e2: "\<forall>i\<in>set (decoratedLines decos ?fl). \<not> (\<exists>b\<in>set ?bl. inBlock b i)"
    using c2 d by blast
  have e3: "\<forall>i<length decos. decoType (decos ! i) = Empty \<and> \<not> ?fl ! i \<longrightarrow>
         i \<notin> set (decoratedLines decos ?fl) \<and> \<not> (\<exists>b\<in>set ?bl. inBlock b i)"
    using c2 d by blast
  show ?thesis
    using spans_tree [of lines] e1 e2 e3 lineDecorations_decorated [of decos ?fl]
    by (intro conjI)
qed

theorem render_tree_covers_lines_witness:
  "concat (map spanLines (spans (parseLines initialState dualExample)))
     = parseLines initialState dualExample
   \<and> map spanLines (spans (parseLines initialState dualExample))
     = [take 1 (parseLines initialState dualExample), drop 1 (parseLines initialState dualExample)]
   \<and> (\<exists>b\<in>set (blocksToReplace (dualPass (classifyDoc sceneExample))). inBlock b 1)
   \<and> decoratedLines (classifyDoc sceneExample)
        (isDualProcessed (dualPass (classifyDoc sceneExample))) = [6]
   \<and> \<not> (\<exists>b\<in>set (blocksToReplace (dualPass (classifyDoc sceneExample))). inBlock b 6)
   \<and> \<not> (\<exists>b\<in>set (blocksToReplace (dualPass (classifyDoc sceneExample))). inBlock b 0)
   \<and> lineDecorations (classifyDoc sceneExample)
        (isDualProcessed (dualPass (classifyDoc sceneExample)))
      = [(7, cu ''fountain-scene-heading'')]"
proof -
  let ?D = "classifyDoc sceneExample"
  note t = render_tree_covers_lines [of "parseLines initialState dualExample" ?D]
  have dl: "decoratedLines ?D (isDualProcessed (dualPass ?D)) = [6]"
    unfolding scene_pass unfolding scene_decos
    by (simp add: decoratedLines_def upt_rec numeral_eq_Suc)
  have h: "length ?D = 7" "decoType (?D ! 1) \<noteq> Empty" "isDualProcessed (dualPass ?D) ! 1"
    "decoType (?D ! 0) = Empty" "\<not> isDualProcessed (dualPass ?D) ! 0"
    unfolding scene_pass unfolding scene_decos by simp_all
  have 1: "concat (map spanLines (spans (parseLines initialState dualExample)))
     = parseLines initialState dualExample"
    using t by blast
  have 2: "map spanLines (spans (parseLines initialState dualExample))
     = [take 1 (parseLines initialState dualExample), drop 1 (parseLines initialState dualExample)]"
    unfolding example_spans unfolding example_lines by simp
  have "\<forall>i<length ?D. decoType (?D ! i) \<noteq> Empty \<longrightarrow>
         (if isDualProcessed (dualPass ?D) ! i
          then \<exists>b\<in>set (blocksToReplace (dualPass ?D)). inBlock b i
          else i \<in> set (decoratedLines ?D (isDualProcessed (dualPass ?D))))"
    using t by blast
  from this [rule_format, of 1] have 3: "\<exists>b\<in>set (blocksToReplace (dualPass ?D)). inBlock b 1"
    using h(1,2,3) by simp
  have "\<forall>i\<in>set (decoratedLines ?D (isDualProcessed (dualPass ?D))).
         \<not> (\<exists>b\<in>set (blocksToReplace (dualPass ?D)). inBlock b i)"
    using t by blast
  then have 4: "\<not> (\<exists>b\<in>set (blocksToReplace (dualPass ?D)). inBlock b 6)"
    unfolding dl by simp
  have "\<forall>i<length ?D. decoType (?D ! i) = Empty \<and> \<not> isDualProcessed (dualPass ?D) ! i \<longrightarrow>
         i \<notin> set (decoratedLines ?D (isDualProcessed (dualPass ?D)))
         \<and> \<not> (\<exists>b\<in>set (blocksToReplace (dualPass ?D)). inBlock b i)"
    using t by blast
  from this [rule_format, of 0] have 5: "\<not> (\<exists>b\<in>set (blocksToReplace (dualPass ?D)). inBlock b 0)"
    using h(1,4,5) by simp
  have "lineDecorations ?D (isDualProcessed (dualPass ?D))
       = map (\<lambda>i. (lineNum (?D ! i), cu ''fountain-'' @ typeName (decoType (?D ! i))))
           (decoratedLines ?D (isDualProcessed (dualPass ?D)))"
    using t by blast
  then have 6: "lineDecorations ?D (isDualProcessed (dualPass ?D)) = [(7, cu ''fountain-scene-heading'')]"
    unfolding dl unfolding scene_decos by (simp add: cu_def)
  from 1 2 3 dl 4 5 6 show ?thesis by (intro conjI)
qed

text \<open>
  C10. The HTML of the preview is the HTML of the nodes of the render tree, joined by line
  feeds. Without the strings pushed around the columns of a dual block, its parts are the
  \<^verbatim>\<open>div\<close> elements of the nodes: one for a single line, and for a dual block one for each
  line of the left and then of the right block; so they stand one to one and in order for
  the lines of the nodes, each the \<^verbatim>\<open>div\<close> of its line (in a right column with the
  caret of the cue removed). The lines of the nodes, without those of type \<open>Empty\<close>, are
  the classified lines without those of type \<open>Empty\<close>: every line that is not
  \<open>Empty\<close>, a dialogue continuation line too, is rendered exactly once, in source order.
\<close>

theorem html_keeps_nonempty_lines:
  "fountainToHTML lines = joinWith [10] (concat (map nodeHtml (assemble lines)))
   \<and> filter (\<lambda>part. \<not> isContainerTag part) (concat (map nodeHtml (assemble lines)))
       = concat (map nodeDivs (assemble lines))
   \<and> list_all2 (\<lambda>part line. part = renderLine line \<or> part = renderRight line)
       (filter (\<lambda>part. \<not> isContainerTag part) (concat (map nodeHtml (assemble lines))))
       (concat (map nodeLines (assemble lines)))
   \<and> filter (\<lambda>l. type l \<noteq> Empty) (concat (map nodeLines (assemble lines)))
       = filter (\<lambda>l. type l \<noteq> Empty) lines
   \<and> filter (\<lambda>l. type l = DialogueBlank) (concat (map nodeLines (assemble lines)))
       = filter (\<lambda>l. type l = DialogueBlank) lines"
proof -
  have h: "fountainToHTML lines = joinWith [10] (concat (map nodeHtml (assemble lines)))"
    by (simp add: fountainToHTML_def assemble_def htmlLoop_nodes)
  have d: "filter (\<lambda>part. \<not> isContainerTag part) (concat (map nodeHtml (assemble lines)))
       = concat (map nodeDivs (assemble lines))"
    by (rule nodes_nodeDivs)
  have l: "list_all2 (\<lambda>part line. part = renderLine line \<or> part = renderRight line)
       (filter (\<lambda>part. \<not> isContainerTag part) (concat (map nodeHtml (assemble lines))))
       (concat (map nodeLines (assemble lines)))"
    unfolding d by (rule nodes_divs)
  have f: "filter (\<lambda>l. type l \<noteq> Empty) (concat (map nodeLines (assemble lines)))
       = filter (\<lambda>l. type l \<noteq> Empty) lines"
    using assembleLoop_cover [of lines 0] by (simp add: assemble_def flatten_def)
  have "filter (\<lambda>l. type l = DialogueBlank)
          (filter (\<lambda>l. type l \<noteq> Empty) (concat (map nodeLines (assemble lines))))
       = filter (\<lambda>l. type l = DialogueBlank) (filter (\<lambda>l. type l \<noteq> Empty) lines)"
    by (simp only: f)
  moreover have "(\<lambda>l::FountainLine. type l \<noteq> Empty \<and> type l = DialogueBlank)
      = (\<lambda>l. type l = DialogueBlank)"
    by auto
  ultimately have b: "filter (\<lambda>l. type l = DialogueBlank) (concat (map nodeLines (assemble lines)))
       = filter (\<lambda>l. type l = DialogueBlank) lines"
    by (simp add: conj_commute)
  from h d l f b show ?thesis
    by (intro conjI)
qed

theorem html_keeps_nonempty_lines_witness:
  \<open>fountainToHTML (parseLines initialState dualExample) =
     cu (''<div class="fountain-empty">&nbsp;</div>\<newline>''
       @ ''<div class="fountain-dual-dialogue">\<newline>''
       @ ''<div class="fountain-dual-col">\<newline>''
       @ ''<div class="fountain-line fountain-character">JOHN</div>\<newline>''
       @ ''<div class="fountain-line fountain-dialogue">Hi!</div>\<newline>''
       @ ''</div>\<newline>''
       @ ''<div class="fountain-dual-col">\<newline>''
       @ ''<div class="fountain-line fountain-character">JANE</div>\<newline>''
       @ ''<div class="fountain-line fountain-dialogue">Hey!</div>\<newline>''
       @ ''</div>\<newline>''
       @ ''</div>'')
   \<and> filter (\<lambda>part. \<not> isContainerTag part)
         (concat (map nodeHtml (assemble (parseLines initialState dualExample))))
       = map cu [''<div class="fountain-empty">&nbsp;</div>'',
           ''<div class="fountain-line fountain-character">JOHN</div>'',
           ''<div class="fountain-line fountain-dialogue">Hi!</div>'',
           ''<div class="fountain-line fountain-character">JANE</div>'',
           ''<div class="fountain-line fountain-dialogue">Hey!</div>'']\<close>
proof -
  note t = html_keeps_nonempty_lines [of "parseLines initialState dualExample"]
  have "fountainToHTML (parseLines initialState dualExample)
      = joinWith [10] (concat (map nodeHtml (assemble (parseLines initialState dualExample))))"
    using t by blast
  then have 1: \<open>fountainToHTML (parseLines initialState dualExample) =
     cu (''<div class="fountain-empty">&nbsp;</div>\<newline>''
       @ ''<div class="fountain-dual-dialogue">\<newline>''
       @ ''<div class="fountain-dual-col">\<newline>''
       @ ''<div class="fountain-line fountain-character">JOHN</div>\<newline>''
       @ ''<div class="fountain-line fountain-dialogue">Hi!</div>\<newline>''
       @ ''</div>\<newline>''
       @ ''<div class="fountain-dual-col">\<newline>''
       @ ''<div class="fountain-line fountain-character">JANE</div>\<newline>''
       @ ''<div class="fountain-line fountain-dialogue">Hey!</div>\<newline>''
       @ ''</div>\<newline>''
       @ ''</div>'')\<close>
    unfolding example_tree
    by (simp add: dualParts_def renderLine_def renderRight_def escapeHtml_def replaceAll_def
        isSectionHeading_def rx_defs ch_defs)
  have "filter (\<lambda>part. \<not> isContainerTag part)
         (concat (map nodeHtml (assemble (parseLines initialState dualExample))))
       = concat (map nodeDivs (assemble (parseLines initialState dualExample)))"
    using t by blast
  then have 2: \<open>filter (\<lambda>part. \<not> isContainerTag part)
         (concat (map nodeHtml (assemble (parseLines initialState dualExample))))
       = map cu [''<div class="fountain-empty">&nbsp;</div>'',
           ''<div class="fountain-line fountain-character">JOHN</div>'',
           ''<div class="fountain-line fountain-dialogue">Hi!</div>'',
           ''<div class="fountain-line fountain-character">JANE</div>'',
           ''<div class="fountain-line fountain-dialogue">Hey!</div>'']\<close>
    unfolding example_tree
    by (simp add: renderLine_def renderRight_def escapeHtml_def replaceAll_def
        isSectionHeading_def rx_defs ch_defs)
  from 1 2 show ?thesis by (rule conjI)
qed

section \<open>The cues of a dual block\<close>

text \<open>
  C3, as stated, fails for the left group: nothing looks at the caret of the left cue. In
  the text below the first cue \<open>JOHN^\<close> ends with a caret, and it opens the left group of
  the dual block of the preview.
\<close>

theorem left_cue_with_marker_counterexample:
  "assemble (parseFountain (cu ''JOHN^\<newline>Hi!\<newline>\<newline>JANE^\<newline>Hey!'')) =
     [DualBlock
        [\<lparr>type = Character, lineText = cu ''JOHN^'', rawText = cu ''JOHN^''\<rparr>,
         \<lparr>type = Dialogue, lineText = cu ''Hi!'', rawText = cu ''Hi!''\<rparr>]
        [\<lparr>type = Character, lineText = cu ''JANE^'', rawText = cu ''JANE^''\<rparr>,
         \<lparr>type = Dialogue, lineText = cu ''Hey!'', rawText = cu ''Hey!''\<rparr>]]
   \<and> endsWith (cu ''JOHN^'') 94"
proof -
  have sp: "splitOn 10 (cu ''JOHN^\<newline>Hi!\<newline>\<newline>JANE^\<newline>Hey!'')
      = [cu ''JOHN^'', cu ''Hi!'', [], cu ''JANE^'', cu ''Hey!'']"
    by (simp add: cu_def)
  have p: "parseFountain (cu ''JOHN^\<newline>Hi!\<newline>\<newline>JANE^\<newline>Hey!'') =
     [\<lparr>type = Character, lineText = cu ''JOHN^'', rawText = cu ''JOHN^''\<rparr>,
      \<lparr>type = Dialogue, lineText = cu ''Hi!'', rawText = cu ''Hi!''\<rparr>,
      \<lparr>type = Empty, lineText = [], rawText = []\<rparr>,
      \<lparr>type = Character, lineText = cu ''JANE^'', rawText = cu ''JANE^''\<rparr>,
      \<lparr>type = Dialogue, lineText = cu ''Hey!'', rawText = cu ''Hey!''\<rparr>]"
    unfolding parseFountain_def sp
    by (simp add: rx_defs ch_defs cl_defs upTo_numeral)
  show ?thesis
    unfolding p by (simp add: loop_simps endsWith_def cu_def)
qed

text \<open>
  C3, amended. In every dual block of the preview and in every block of the editor, the
  first line of the left group is of type \<open>Character\<close> (with or without a caret), and the
  first line of the right group is of type \<open>Character\<close> with a trimmed text that ends
  with a caret.
\<close>

theorem dual_block_cues:
  "list_all dualShape (assemble lines)
   \<and> list_all (cueShape decos) (blocksToReplace (dualPass decos))"
proof -
  have "list_all dualShape (assemble lines)"
    using assembleLoop_shape [of lines 0] by (simp add: assemble_def list_all_iff)
  moreover have "list_all (cueShape decos) (blocksToReplace (dualPass decos))"
    using dualPass_blocks [of decos] by (simp add: list_all_iff)
  ultimately show ?thesis by blast
qed

theorem dual_block_cues_witness:
  "dualShape (assemble (parseLines initialState dualExample) ! 1)
   \<and> cueShape (classifyDoc dualExample)
        (blocksToReplace (dualPass (classifyDoc dualExample)) ! 0)
   \<and> length (assemble (parseLines initialState dualExample)) = 2
   \<and> length (blocksToReplace (dualPass (classifyDoc dualExample))) = 1"
proof -
  have "length (assemble (parseLines initialState dualExample)) = 2"
    and "length (blocksToReplace (dualPass (classifyDoc dualExample))) = 1"
    unfolding example_tree example_pass by simp_all
  with dual_block_cues [of "parseLines initialState dualExample" "classifyDoc dualExample"]
  show ?thesis by (simp add: list_all_length)
qed

section \<open>What ends a dual block\<close>

lemma rightScan_breaks:
  assumes "breaksBlock (decoType (decos ! k))"
  shows "rightScan decos k = []"
proof -
  have "\<not> goRight decos k"
    using assms by (auto simp: goRight_def breaksBlock_def isSectionHeading_def)
  then show ?thesis by (rule rightScan_stop)
qed

text \<open>
  C8, as stated, fails for the scan to the right. Below, the scan to the right from the
  marker \<open>JANE^\<close> (line 4) stops at the scene heading of line 6, and yet the marker is
  paired: the block is recorded and the lines 1 to 5 are marked processed.
\<close>

theorem right_scan_stops_counterexample:
  "decoType (classifyDoc (dualExample @ [cu ''INT. HOUSE'']) ! 6) = SceneHeading
   \<and> rightScan (classifyDoc (dualExample @ [cu ''INT. HOUSE''])) 5 = [5]
   \<and> dualStep (classifyDoc (dualExample @ [cu ''INT. HOUSE''])) 4
        \<lparr>isDualProcessed = replicate 7 False, blocksToReplace = []\<rparr>
      = \<lparr>isDualProcessed = [False, True, True, True, True, True, False],
         blocksToReplace = [([1, 2], [4, 5])]\<rparr>"
proof -
  have d: "classifyDoc (dualExample @ [cu ''INT. HOUSE'']) =
    [\<lparr>lineNum = 1, decoType = Empty, decoText = []\<rparr>,
     \<lparr>lineNum = 2, decoType = Character, decoText = cu ''JOHN''\<rparr>,
     \<lparr>lineNum = 3, decoType = Dialogue, decoText = cu ''Hi!''\<rparr>,
     \<lparr>lineNum = 4, decoType = Empty, decoText = []\<rparr>,
     \<lparr>lineNum = 5, decoType = Character, decoText = cu ''JANE^''\<rparr>,
     \<lparr>lineNum = 6, decoType = Dialogue, decoText = cu ''Hey!''\<rparr>,
     \<lparr>lineNum = 7, decoType = SceneHeading, decoText = cu ''INT. HOUSE''\<rparr>]"
    by (simp add: dualExample_def classifyDoc_def classifyDeco_def rx_defs ch_defs cl_defs)
  show ?thesis
    unfolding d
    by (simp add: dualStep_def loop_simps endsWith_def cu_def markProcessed_def
        Let_def numeral_eq_Suc)
qed

text \<open>
  C8, amended. No block spans a line that ends a block. In the editor every line from the
  first line of the left group to the last line of the right group is of type
  \<open>Character\<close>, \<open>Dialogue\<close>, \<open>Parenthetical\<close> or \<open>Empty\<close>. In the preview the
  lines that a dual block passes over are the lines of its two groups, of type
  \<open>Character\<close>, \<open>Dialogue\<close>, \<open>Parenthetical\<close> or \<open>DialogueBlank\<close>, and the lines
  between them, of type \<open>Empty\<close>; when the line after the left block and the empty lines
  is a scene heading, a transition, a centered line, an action line or a section heading,
  the turn renders the one line and no block. When the scan to the left of a marker meets
  such a line before any character line, the attempt is given up and the flags and the
  blocks stay as they were. When the scan to the right meets such a line, the right group
  ends before it, and the marker is paired all the same when its left group starts with a
  character line: the block is recorded and its lines are flagged.
\<close>

theorem dual_block_breaks:
  "list_all (spanTypes decos) (blocksToReplace (dualPass decos))
   \<and> list_all blockTypes (assemble lines)
   \<and> map spanNode (spans lines) = assemble lines
   \<and> concat (map spanLines (spans lines)) = lines
   \<and> list_all spanKinds (spans lines)
   \<and> (i < length lines
       \<and> skipEmpty lines (i + length (collectDialogueBlock lines i)) < length lines
       \<and> breaksBlock (type (lines ! skipEmpty lines (i + length (collectDialogueBlock lines i))))
      \<longrightarrow> assembleLoop lines i = SingleLine (lines ! i) # assembleLoop lines (i + 1))
   \<and> (f < j \<and> breaksBlock (decoType (decos ! f))
       \<and> (\<forall>x. f < x \<and> x < j \<longrightarrow> decoType (decos ! x) = Dialogue
             \<or> decoType (decos ! x) = Parenthetical \<or> decoType (decos ! x) = Empty)
      \<longrightarrow> dualStep decos j dp = dp)
   \<and> (breaksBlock (decoType (decos ! k)) \<longrightarrow> rightScan decos k = [])
   \<and> (j < k \<and> k < length decos \<and> breaksBlock (decoType (decos ! k))
       \<and> (\<forall>x. j < x \<and> x < k \<longrightarrow> decoType (decos ! x) = Dialogue
             \<or> decoType (decos ! x) = Parenthetical)
      \<longrightarrow> rightScan decos (j + 1) = [j + 1..<k])
   \<and> (pairs decos j dp
      \<longrightarrow> dualStep decos j dp =
           \<lparr>isDualProcessed =
              markProcessed (j # rightScan decos (j + 1))
                (markProcessed (fst (midScan decos j []))
                  (markProcessed (leftGroupOf decos j) (isDualProcessed dp))),
            blocksToReplace =
              blocksToReplace dp @ [(leftGroupOf decos j, j # rightScan decos (j + 1))]\<rparr>)"
proof -
  have 1: "list_all (spanTypes decos) (blocksToReplace (dualPass decos))"
    using dualPass_blocks [of decos] by (simp add: list_all_iff)
  have 2: "list_all blockTypes (assemble lines)"
    using assembleLoop_shape [of lines 0] by (simp add: assemble_def list_all_iff)
  have 3: "i < length lines
       \<and> skipEmpty lines (i + length (collectDialogueBlock lines i)) < length lines
       \<and> breaksBlock (type (lines ! skipEmpty lines (i + length (collectDialogueBlock lines i))))
      \<longrightarrow> assembleLoop lines i = SingleLine (lines ! i) # assembleLoop lines (i + 1)"
  proof (intro impI, elim conjE)
    assume i: "i < length lines"
      and b: "breaksBlock (type (lines ! skipEmpty lines (i + length (collectDialogueBlock lines i))))"
    from b have "\<not> dualAt lines i"
      by (auto simp: dualAt_def breaksBlock_def isSectionHeading_def)
    with i show "assembleLoop lines i = SingleLine (lines ! i) # assembleLoop lines (i + 1)"
      by (rule assembleLoop_single)
  qed
  have 4: "f < j \<and> breaksBlock (decoType (decos ! f))
       \<and> (\<forall>x. f < x \<and> x < j \<longrightarrow> decoType (decos ! x) = Dialogue
             \<or> decoType (decos ! x) = Parenthetical \<or> decoType (decos ! x) = Empty)
      \<longrightarrow> dualStep decos j dp = dp"
    using pair_aborts [of f j decos dp] dualStep_no_pair [of decos j dp] by blast
  have 5: "breaksBlock (decoType (decos ! k)) \<longrightarrow> rightScan decos k = []"
    by (simp add: rightScan_breaks)
  have 6: "j < k \<and> k < length decos \<and> breaksBlock (decoType (decos ! k))
       \<and> (\<forall>x. j < x \<and> x < k \<longrightarrow> decoType (decos ! x) = Dialogue
             \<or> decoType (decos ! x) = Parenthetical)
      \<longrightarrow> rightScan decos (j + 1) = [j + 1..<k]"
  proof (intro impI, elim conjE)
    assume jk: "j < k" and k: "k < length decos" and b: "breaksBlock (decoType (decos ! k))"
      and r: "\<forall>x. j < x \<and> x < k \<longrightarrow> decoType (decos ! x) = Dialogue
             \<or> decoType (decos ! x) = Parenthetical"
    have "\<not> goRight decos k"
      using b by (auto simp: goRight_def breaksBlock_def isSectionHeading_def)
    then show "rightScan decos (j + 1) = [j + 1..<k]"
      using jk k r by (intro rightScan_run) simp_all
  qed
  have 7: "pairs decos j dp
      \<longrightarrow> dualStep decos j dp =
           \<lparr>isDualProcessed =
              markProcessed (j # rightScan decos (j + 1))
                (markProcessed (fst (midScan decos j []))
                  (markProcessed (leftGroupOf decos j) (isDualProcessed dp))),
            blocksToReplace =
              blocksToReplace dp @ [(leftGroupOf decos j, j # rightScan decos (j + 1))]\<rparr>"
    using dualStep_pairs [of decos j dp] by blast
  from 1 2 spans_tree [of lines] 3 4 5 6 7 show ?thesis
    by (intro conjI)
qed

theorem dual_block_breaks_witness:
  "dualStep (classifyDoc (map cu [''He leaves.'', '''', ''JANE^'', ''Hey!''])) 2
        \<lparr>isDualProcessed = replicate 4 False, blocksToReplace = []\<rparr>
      = \<lparr>isDualProcessed = replicate 4 False, blocksToReplace = []\<rparr>
   \<and> decoType (classifyDoc (map cu [''He leaves.'', '''', ''JANE^'', ''Hey!'']) ! 2) = Character
   \<and> endsWith (decoText (classifyDoc (map cu [''He leaves.'', '''', ''JANE^'', ''Hey!'']) ! 2)) 94
   \<and> rightScan (classifyDoc (map cu [''He leaves.'', '''', ''JANE^'', ''Hey!''])) 0 = []
   \<and> spanTypes (classifyDoc dualExample) ([1, 2], [4, 5])
   \<and> rightScan (classifyDoc sceneExample) 5 = [5]
   \<and> blocksToReplace (dualStep (classifyDoc sceneExample) 4
        \<lparr>isDualProcessed = replicate 7 False, blocksToReplace = []\<rparr>) = [([1, 2], [4, 5])]
   \<and> spanKinds (spans (parseLines initialState dualExample) ! 1)
   \<and> map type (spanLines (spans (parseLines initialState dualExample) ! 1))
       = [Character, Dialogue, Empty, Character, Dialogue]
   \<and> map type (parseLines initialState actionBetween)
       = [Character, Dialogue, Empty, Action, Empty, Character, Dialogue]
   \<and> assembleLoop (parseLines initialState actionBetween) 0
       = SingleLine (parseLines initialState actionBetween ! 0)
         # assembleLoop (parseLines initialState actionBetween) 1
   \<and> assemble (parseLines initialState actionBetween)
       = map SingleLine (parseLines initialState actionBetween)"
proof -
  let ?D = "classifyDoc (map cu [''He leaves.'', '''', ''JANE^'', ''Hey!''])"
  let ?S = "classifyDoc sceneExample"
  let ?E = "parseLines initialState dualExample"
  let ?A = "parseLines initialState actionBetween"
  let ?dp4 = "\<lparr>isDualProcessed = replicate 4 False, blocksToReplace = []\<rparr>"
  let ?dp7 = "\<lparr>isDualProcessed = replicate 7 False, blocksToReplace = []\<rparr>"
  have d: "?D =
    [\<lparr>lineNum = 1, decoType = Action, decoText = cu ''He leaves.''\<rparr>,
     \<lparr>lineNum = 2, decoType = Empty, decoText = []\<rparr>,
     \<lparr>lineNum = 3, decoType = Character, decoText = cu ''JANE^''\<rparr>,
     \<lparr>lineNum = 4, decoType = Dialogue, decoText = cu ''Hey!''\<rparr>]"
    by (simp add: classifyDoc_def classifyDeco_def rx_defs ch_defs cl_defs)
  have h: "0 < (2::nat) \<and> breaksBlock (decoType (?D ! 0))
       \<and> (\<forall>x. 0 < x \<and> x < (2::nat) \<longrightarrow> decoType (?D ! x) = Dialogue
             \<or> decoType (?D ! x) = Parenthetical \<or> decoType (?D ! x) = Empty)"
  proof -
    have "\<forall>x. 0 < x \<and> x < (2::nat) \<longrightarrow> x = 1" by auto
    then show ?thesis
      unfolding d by (auto simp: breaksBlock_def)
  qed
  note t = dual_block_breaks [where decos = ?D and f = 0 and j = 2 and k = 0
      and dp = ?dp4 and lines = ?A and i = 0]
  note u = dual_block_breaks [where decos = ?S and j = 4 and k = 6
      and dp = ?dp7 and lines = ?E]
  have 1: "dualStep ?D 2 ?dp4 = ?dp4"
    using t h by blast
  have 2: "decoType (?D ! 2) = Character \<and> endsWith (decoText (?D ! 2)) 94"
    unfolding d by (simp add: endsWith_def cu_def)
  have 3: "rightScan ?D 0 = []"
    using t h by blast
  have 4: "spanTypes (classifyDoc dualExample) ([1, 2], [4, 5])"
    using dual_block_breaks [where decos = "classifyDoc dualExample" and lines = "[]"]
    unfolding example_pass by simp
  have hs: "(4::nat) < 6 \<and> 6 < length ?S \<and> breaksBlock (decoType (?S ! 6))
       \<and> (\<forall>x. (4::nat) < x \<and> x < 6 \<longrightarrow> decoType (?S ! x) = Dialogue
             \<or> decoType (?S ! x) = Parenthetical)"
  proof -
    have "\<forall>x. (4::nat) < x \<and> x < 6 \<longrightarrow> x = 5" by auto
    then show ?thesis
      unfolding scene_decos by (auto simp: breaksBlock_def)
  qed
  have "rightScan ?S (4 + 1) = [4 + 1..<6]"
    using u hs by blast
  then have 5: "rightScan ?S 5 = [5]"
    by (simp add: upt_rec)
  have lg: "leftGroupOf ?S 4 = [1, 2]"
    unfolding scene_decos by (simp add: leftGroupOf_def numeral_eq_Suc)
  have "pairs ?S 4 ?dp7"
    unfolding pairs_def lg unfolding scene_decos
    by (simp add: isMarker_def endsWith_def cu_def)
  then have "dualStep ?S 4 ?dp7 =
           \<lparr>isDualProcessed =
              markProcessed (4 # rightScan ?S (4 + 1))
                (markProcessed (fst (midScan ?S 4 []))
                  (markProcessed (leftGroupOf ?S 4) (isDualProcessed ?dp7))),
            blocksToReplace =
              blocksToReplace ?dp7 @ [(leftGroupOf ?S 4, 4 # rightScan ?S (4 + 1))]\<rparr>"
    using u by blast
  then have 6: "blocksToReplace (dualStep ?S 4 ?dp7) = [([1, 2], [4, 5])]"
    using 5 lg by simp
  have "list_all spanKinds (spans ?E)"
    using u by blast
  then have 7: "spanKinds (spans ?E ! 1)"
    unfolding example_spans by simp
  have 8: "map type (spanLines (spans ?E ! 1)) = [Character, Dialogue, Empty, Character, Dialogue]"
    unfolding example_spans by simp
  have 9: "map type ?A = [Character, Dialogue, Empty, Action, Empty, Character, Dialogue]"
    unfolding action_lines by simp
  have ha: "0 < length ?A
       \<and> skipEmpty ?A (0 + length (collectDialogueBlock ?A 0)) < length ?A
       \<and> breaksBlock (type (?A ! skipEmpty ?A (0 + length (collectDialogueBlock ?A 0))))"
    unfolding action_lines by (simp add: loop_simps breaksBlock_def)
  have 10: "assembleLoop ?A 0 = SingleLine (?A ! 0) # assembleLoop ?A 1"
    using t ha by simp
  have 11: "assemble ?A = map SingleLine ?A"
    by (rule action_tree)
  from 1 2 3 4 5 6 7 8 9 10 11 show ?thesis
    by (intro conjI) blast+
qed

section \<open>The HTML of one line\<close>

lemma replaceAll_append: "replaceAll c r (a @ b) = replaceAll c r a @ replaceAll c r b"
  by (simp add: replaceAll_def)

lemma escapeHtml_append: "escapeHtml (a @ b) = escapeHtml a @ escapeHtml b"
  by (simp add: escapeHtml_def replaceAll_append)

lemma escapeHtml_single: "escapeHtml [c] = escapeChar c"
  by (simp add: escapeHtml_def escapeChar_def replaceAll_def cu_def)

lemma escapeHtml_chars: "escapeHtml s = concat (map escapeChar s)"
proof (induction s)
  case Nil
  show ?case by (simp add: escapeHtml_def replaceAll_def)
next
  case (Cons c s)
  have "escapeHtml (c # s) = escapeHtml ([c] @ s)" by simp
  also have "\<dots> = escapeChar c @ escapeHtml s"
    by (simp only: escapeHtml_append escapeHtml_single)
  finally show ?case using Cons by simp
qed

lemma all_take_iff:
  "m \<le> length xs \<Longrightarrow> (\<forall>c\<in>set (take m xs). P c) \<longleftrightarrow> m \<le> length (takeWhile P xs)"
proof (induction xs arbitrary: m)
  case Nil
  then show ?case by simp
next
  case (Cons x xs)
  show ?case
  proof (cases m)
    case 0
    then show ?thesis by simp
  next
    case (Suc m')
    with Cons.prems have "m' \<le> length xs" by simp
    then have "(\<forall>c\<in>set (take m' xs). P c) \<longleftrightarrow> m' \<le> length (takeWhile P xs)"
      by (rule Cons.IH)
    with Suc show ?thesis by auto
  qed
qed

lemma longestMatch_greatest:
  assumes "k \<le> n" and "matches r (take k s)"
    and "\<forall>k'. k < k' \<and> k' \<le> n \<longrightarrow> \<not> matches r (take k' s)"
  shows "longestMatch r s n = Some k"
  using assms
proof (induction n)
  case 0
  then show ?case by simp
next
  case (Suc n)
  show ?case
  proof (cases "k = Suc n")
    case True
    with Suc.prems show ?thesis by simp
  next
    case False
    with Suc.prems have "k \<le> n" and "\<not> matches r (take (Suc n) s)" by auto
    moreover have "longestMatch r s n = Some k"
      using \<open>k \<le> n\<close> Suc.prems by (intro Suc.IH) auto
    ultimately show ?thesis by simp
  qed
qed

lemma longestMatch_none:
  assumes "\<forall>k. k \<le> n \<longrightarrow> \<not> matches r (take k s)"
  shows "longestMatch r s n = None"
  using assms by (induction n) auto

lemma leadingGtRx_iff:
  "matches leadingGtRx u \<longleftrightarrow> (\<exists>w. u = 62 # w \<and> (\<forall>c\<in>set w. isWS c))"
  by (auto simp: leadingGtRx_def atom_defs rx_simps)

lemma removePrefix_leadingGt: "removePrefixRx leadingGtRx t = stripLeadingGt t"
proof (cases "startsWith t 62")
  case False
  have "\<forall>k. k \<le> length t \<longrightarrow> \<not> matches leadingGtRx (take k t)"
  proof (intro allI impI notI)
    fix k assume "matches leadingGtRx (take k t)"
    then obtain w where "take k t = 62 # w" unfolding leadingGtRx_iff by blast
    then have "t \<noteq> [] \<and> hd t = 62" by (cases t; cases k) auto
    with False show False by (simp add: startsWith_def)
  qed
  then have "longestMatch leadingGtRx t (length t) = None"
    by (rule longestMatch_none)
  with False show ?thesis
    by (simp add: removePrefixRx_def stripLeadingGt_def)
next
  case True
  then obtain rest where t: "t = 62 # rest"
    by (cases t) (auto simp: startsWith_def)
  let ?n = "length (takeWhile isWS rest)"
  have m: "matches leadingGtRx (take k t) \<longleftrightarrow> 1 \<le> k \<and> k - 1 \<le> ?n" if "k \<le> length t" for k
  proof (cases k)
    case 0
    then show ?thesis by (simp add: leadingGtRx_iff del: matches.simps)
  next
    case (Suc k')
    with that t have "k' \<le> length rest" by simp
    then have "(\<forall>c\<in>set (take k' rest). isWS c) \<longleftrightarrow> k' \<le> ?n"
      by (rule all_take_iff)
    with Suc t show ?thesis by (simp add: leadingGtRx_iff del: matches.simps)
  qed
  have le: "Suc ?n \<le> length t"
    using t length_takeWhile_le [of isWS rest] by simp
  have "longestMatch leadingGtRx t (length t) = Some (Suc ?n)"
  proof (rule longestMatch_greatest [OF le])
    show "matches leadingGtRx (take (Suc ?n) t)"
      using m [OF le] by (simp del: matches.simps take_Suc_Cons)
    show "\<forall>k'. Suc ?n < k' \<and> k' \<le> length t \<longrightarrow> \<not> matches leadingGtRx (take k' t)"
      using m by (auto simp del: matches.simps)
  qed
  then show ?thesis
    using True t by (simp add: removePrefixRx_def stripLeadingGt_def dropWhile_eq_drop)
qed

lemma trailingLtRx_iff:
  "matches trailingLtRx u \<longleftrightarrow> (\<exists>w. u = w @ [60] \<and> (\<forall>c\<in>set w. isWS c))"
  by (auto simp: trailingLtRx_def atom_defs rx_simps)

lemma trimEnd_all_ws: "\<forall>c\<in>set w. isWS c \<Longrightarrow> trimEnd w = []"
  by (simp add: trimEnd_def dropWhile_eq_Nil_conv)

lemma trimEnd_Cons:
  assumes "\<not> (\<forall>x\<in>set (c # w). isWS x)"
  shows "trimEnd (c # w) = c # trimEnd w"
proof (cases "\<forall>x\<in>set w. isWS x")
  case True
  with assms have "\<not> isWS c" by simp
  have "dropWhile isWS (rev w @ [c]) = dropWhile isWS [c]"
    using True by (intro dropWhile_append2) simp
  moreover have "dropWhile isWS (rev w) = []"
    using True by (simp add: dropWhile_eq_Nil_conv)
  ultimately show ?thesis
    using \<open>\<not> isWS c\<close> by (simp add: trimEnd_def)
next
  case False
  then obtain x where "x \<in> set (rev w)" and "\<not> isWS x" by auto
  then have "dropWhile isWS (rev w @ [c]) = dropWhile isWS (rev w) @ [c]"
    by (rule dropWhile_append1)
  then show ?thesis
    by (simp add: trimEnd_def)
qed

lemma removeSuffix_trailingLt: "removeSuffixRx trailingLtRx t = stripTrailingLt t"
proof (induction t)
  case Nil
  show ?case by (simp add: stripTrailingLt_def endsWith_def)
next
  case (Cons c cs)
  show ?case
  proof (cases "matches trailingLtRx (c # cs)")
    case True
    then obtain w where w: "c # cs = w @ [60]" "\<forall>x\<in>set w. isWS x"
      unfolding trailingLtRx_iff by blast
    then have "endsWith (c # cs) 60"
      by (simp add: endsWith_def)
    moreover have "butlast (c # cs) = w"
      using w(1) by (metis butlast_snoc)
    ultimately have "endsWith (c # cs) 60" and "butlast (c # cs) = w"
      by blast+
    with True w(2) show ?thesis
      by (simp add: stripTrailingLt_def trimEnd_all_ws del: butlast.simps matches.simps)
  next
    case False
    show ?thesis
    proof (cases "endsWith (c # cs) 60")
      case e: True
      have "cs \<noteq> []"
      proof
        assume "cs = []"
        with e have "c # cs = [] @ [60]" by (simp add: endsWith_def)
        with False show False unfolding trailingLtRx_iff by simp
      qed
      then have ecs: "endsWith cs 60"
        using e by (simp add: endsWith_def)
      have cs: "c # cs = (c # butlast cs) @ [60]"
        using \<open>cs \<noteq> []\<close> ecs by (simp add: endsWith_def) (metis append_butlast_last_id)
      have "\<not> (\<forall>x\<in>set (c # butlast cs). isWS x)"
        using False cs by (metis trailingLtRx_iff)
      then have "trimEnd (c # butlast cs) = c # trimEnd (butlast cs)"
        by (rule trimEnd_Cons)
      with False e ecs \<open>cs \<noteq> []\<close> Cons show ?thesis
        by (simp add: stripTrailingLt_def del: matches.simps)
    next
      case ne: False
      then have "\<not> endsWith cs 60"
        by (auto simp: endsWith_def)
      with False ne Cons show ?thesis
        by (simp add: stripTrailingLt_def del: matches.simps)
    qed
  qed
qed

lemma hashes_iff:
  "matches (Seq (Sym (\<lambda>c. c = 35)) (Star (Sym (\<lambda>c. c = 35)))) x
   \<longleftrightarrow> x \<noteq> [] \<and> (\<forall>c\<in>set x. c = 35)"
  by (cases x) (simp_all add: matches_Seq_Nul matches_Seq_Eps matches_Star_Sym)

lemma leadingHashRx_iff:
  "matches leadingHashRx u
   \<longleftrightarrow> (\<exists>a b. u = a @ b \<and> a \<noteq> [] \<and> (\<forall>c\<in>set a. c = 35) \<and> (\<forall>c\<in>set b. isWS c))"
proof -
  have "leadingHashRx
      = Seq (Seq (Sym (\<lambda>c. c = 35)) (Star (Sym (\<lambda>c. c = 35)))) (Star (Sym isWS))"
    by (simp add: leadingHashRx_def rxPlus_def lit_def ws_def)
  then have "matches leadingHashRx u
      \<longleftrightarrow> (\<exists>a b. u = a @ b
            \<and> matches (Seq (Sym (\<lambda>c. c = 35)) (Star (Sym (\<lambda>c. c = 35)))) a
            \<and> matches (Star (Sym isWS)) b)"
    using matches_Seq [of "Seq (Sym (\<lambda>c. c = 35)) (Star (Sym (\<lambda>c. c = 35)))"
        "Star (Sym isWS)" u]
    by (simp only:)
  then show ?thesis
    by (simp only: hashes_iff matches_Star_Sym conj_assoc)
qed

lemma hash_prefix_iff:
  assumes "k \<le> length t"
  shows "matches leadingHashRx (take k t)
     \<longleftrightarrow> 1 \<le> k \<and> 1 \<le> length (takeWhile (\<lambda>c. c = 35) t)
         \<and> k \<le> length (takeWhile (\<lambda>c. c = 35) t)
               + length (takeWhile isWS (drop (length (takeWhile (\<lambda>c. c = 35) t)) t))"
    (is "?M \<longleftrightarrow> 1 \<le> k \<and> 1 \<le> ?h \<and> k \<le> ?h + ?n")
proof
  assume ?M
  then obtain a b where ab: "take k t = a @ b" "a \<noteq> []" "\<forall>c\<in>set a. c = 35"
    "\<forall>c\<in>set b. isWS c"
    unfolding leadingHashRx_iff by blast
  let ?i = "length a"
  from ab(1) have "length (take k t) = length (a @ b)" by (rule arg_cong)
  with assms have kab: "k = ?i + length b" by simp
  then have ik: "?i \<le> k" by simp
  from ab(1) have "take ?i (take k t) = take ?i (a @ b)" by (rule arg_cong)
  with ik have a: "take ?i t = a" by (simp add: min.absorb1)
  from ab(1) have "drop ?i (take k t) = drop ?i (a @ b)" by (rule arg_cong)
  then have b: "b = take (k - ?i) (drop ?i t)" by (simp add: drop_take)
  have "?i \<le> length t" using ik assms by simp
  then have "(\<forall>c\<in>set (take ?i t). c = 35) \<longleftrightarrow> ?i \<le> ?h"
    by (rule all_take_iff)
  with ab(3) a have ih: "?i \<le> ?h" by simp
  have "1 \<le> ?i" using ab(2) by (cases a) simp_all
  with ik ih have k1: "1 \<le> k" and h1: "1 \<le> ?h"
    by linarith+
  have "k \<le> ?h + ?n"
  proof (cases "?i = ?h")
    case True
    have "k - ?h \<le> length (drop ?h t)" using assms by simp
    then have "(\<forall>c\<in>set (take (k - ?h) (drop ?h t)). isWS c) \<longleftrightarrow> k - ?h \<le> ?n"
      by (rule all_take_iff)
    with ab(4) b True have "k - ?h \<le> ?n" by simp
    then show ?thesis by simp
  next
    case False
    with ih have lt: "?i < ?h" by simp
    have "k \<le> ?i"
    proof (rule ccontr)
      assume "\<not> k \<le> ?i"
      then have "?i < k" by simp
      with assms have "?i < length t" by simp
      with \<open>?i < k\<close> b have "b \<noteq> []" and "hd b = t ! ?i"
        by (simp_all add: hd_drop_conv_nth)
      moreover have "t ! ?i = 35"
      proof -
        have "takeWhile (\<lambda>c. c = 35) t ! ?i \<in> set (takeWhile (\<lambda>c. c = 35) t)"
          using lt by (rule nth_mem)
        then have "takeWhile (\<lambda>c. c = 35) t ! ?i = 35"
          by (auto dest: set_takeWhileD)
        with lt show ?thesis by (simp add: takeWhile_nth)
      qed
      ultimately have "isWS 35" using ab(4) hd_in_set [of b] by auto
      then show False by (simp add: isWS_def)
    qed
    with lt show ?thesis by simp
  qed
  with k1 h1 show "1 \<le> k \<and> 1 \<le> ?h \<and> k \<le> ?h + ?n" by simp
next
  assume r: "1 \<le> k \<and> 1 \<le> ?h \<and> k \<le> ?h + ?n"
  let ?a = "take (min k ?h) t"
  let ?b = "take (k - ?h) (drop ?h t)"
  have "take k t = ?a @ ?b"
  proof (cases "k \<le> ?h")
    case True
    then show ?thesis by (simp add: min.absorb1)
  next
    case False
    then have "take (?h + (k - ?h)) t = take k t" by simp
    moreover have "take (?h + (k - ?h)) t = take ?h t @ take (k - ?h) (drop ?h t)"
      by (rule take_add)
    ultimately show ?thesis using False by (simp add: min.absorb2)
  qed
  moreover have "?a \<noteq> []"
  proof -
    have "?h \<le> length t" by (rule length_takeWhile_le)
    then have "length ?a = min k ?h" using assms by simp
    moreover have "1 \<le> min k ?h" using r by simp
    ultimately have "length ?a \<noteq> 0" by linarith
    then show ?thesis by auto
  qed
  moreover have "\<forall>c\<in>set ?a. c = 35"
  proof -
    have "min k ?h \<le> length t" using assms by simp
    then have "(\<forall>c\<in>set (take (min k ?h) t). c = 35) \<longleftrightarrow> min k ?h \<le> ?h"
      by (rule all_take_iff)
    moreover have "min k ?h \<le> ?h" by (rule min.cobounded2)
    ultimately show ?thesis by blast
  qed
  moreover have "\<forall>c\<in>set ?b. isWS c"
  proof -
    have "k - ?h \<le> length (drop ?h t)" using assms by simp
    then have "(\<forall>c\<in>set (take (k - ?h) (drop ?h t)). isWS c) \<longleftrightarrow> k - ?h \<le> ?n"
      by (rule all_take_iff)
    moreover have "k - ?h \<le> ?n" using r by linarith
    ultimately show ?thesis by blast
  qed
  ultimately show ?M
    unfolding leadingHashRx_iff by blast
qed

lemma removePrefix_leadingHash: "removePrefixRx leadingHashRx t = stripLeadingHashes t"
proof -
  let ?h = "length (takeWhile (\<lambda>c. c = 35) t)"
  let ?n = "length (takeWhile isWS (drop ?h t))"
  have dh: "drop ?h t = dropWhile (\<lambda>c. c = 35) t"
    by (simp add: dropWhile_eq_drop)
  show ?thesis
  proof (cases "startsWith t 35")
    case True
    then have h1: "1 \<le> ?h"
      by (cases t) (auto simp: startsWith_def)
    have le: "?h + ?n \<le> length t"
    proof -
      have "?n \<le> length (drop ?h t)" by (rule length_takeWhile_le)
      moreover have "?h \<le> length t" by (rule length_takeWhile_le)
      ultimately show ?thesis by simp
    qed
    have "longestMatch leadingHashRx t (length t) = Some (?h + ?n)"
    proof (rule longestMatch_greatest [OF le])
      show "matches leadingHashRx (take (?h + ?n) t)"
        using hash_prefix_iff [OF le] h1 by simp
      show "\<forall>k'. ?h + ?n < k' \<and> k' \<le> length t \<longrightarrow> \<not> matches leadingHashRx (take k' t)"
        using hash_prefix_iff [of _ t] by auto
    qed
    moreover have "drop (?h + ?n) t = dropWhile isWS (dropWhile (\<lambda>c. c = 35) t)"
    proof -
      have "dropWhile isWS (drop ?h t) = drop ?n (drop ?h t)"
        by (rule dropWhile_eq_drop)
      also have "\<dots> = drop (?h + ?n) t"
        by (simp add: add.commute)
      finally show ?thesis by (simp only: dh)
    qed
    ultimately show ?thesis
      using True by (simp add: removePrefixRx_def stripLeadingHashes_def)
  next
    case False
    then have "?h = 0"
      by (cases t) (auto simp: startsWith_def)
    then have "\<forall>k. k \<le> length t \<longrightarrow> \<not> matches leadingHashRx (take k t)"
      using hash_prefix_iff [of _ t] by auto
    then have "longestMatch leadingHashRx t (length t) = None"
      by (rule longestMatch_none)
    with False show ?thesis
      by (simp add: removePrefixRx_def stripLeadingHashes_def)
  qed
qed

lemma renderLine_lineDiv:
  assumes "type line \<noteq> Empty" and "type line \<noteq> DialogueBlank"
  shows "renderLine line = lineDiv line"
  using assms
  by (simp add: renderLine_def lineDiv_def displayText_def Let_def escapeHtml_chars
      removePrefix_leadingGt removeSuffix_trailingLt removePrefix_leadingHash)

text \<open>
  C9, as stated, fails for the lines without text: an \<open>Empty\<close> line (and a dialogue
  continuation line) is rendered as a placeholder of class \<^verbatim>\<open>fountain-empty\<close>, not as a
  \<^verbatim>\<open>div\<close> of classes \<^verbatim>\<open>fountain-line fountain-empty\<close>.
\<close>

theorem empty_line_placeholder_counterexample:
  \<open>renderLine \<lparr>type = Empty, lineText = [], rawText = []\<rparr>
     = cu ''<div class="fountain-empty">&nbsp;</div>''
   \<and> lineDiv \<lparr>type = Empty, lineText = [], rawText = []\<rparr>
     = cu ''<div class="fountain-line fountain-empty"></div>''
   \<and> renderLine \<lparr>type = Empty, lineText = [], rawText = []\<rparr>
     \<noteq> lineDiv \<lparr>type = Empty, lineText = [], rawText = []\<rparr>\<close>
  by (simp add: renderLine_def lineDiv_def displayText_def isSectionHeading_def cu_def)

text \<open>
  C9, amended. \<^verbatim>\<open>renderLine\<close> gives for a line that is neither \<open>Empty\<close> nor a dialogue
  continuation the \<^verbatim>\<open>div\<close> of classes \<^verbatim>\<open>fountain-line fountain-<type>\<close> around the
  displayed text with \<open>&\<close>, \<open><\<close>, \<open>>\<close> and the double quote replaced by their entities.
  The displayed text of a centered line is its text without a leading \<open>>\<close> and the white
  space after it and without a trailing \<open><\<close> and the white space before it; that of a
  transition is its text without a leading \<open>>\<close> and the white space after it; that of a
  section heading is its text without its leading \<open>#\<close> characters and the white space
  after them; that of any other line is its text. An \<open>Empty\<close> line and a dialogue
  continuation line give the placeholder \<^verbatim>\<open><div class="fountain-empty">&nbsp;</div>\<close>.
\<close>

theorem renderLine_html:
  \<open>(type line \<noteq> Empty \<and> type line \<noteq> DialogueBlank \<longrightarrow> renderLine line = lineDiv line)
   \<and> (type line = Empty \<or> type line = DialogueBlank
        \<longrightarrow> renderLine line = cu ''<div class="fountain-empty">&nbsp;</div>'')\<close>
proof (intro conjI impI)
  assume "type line \<noteq> Empty \<and> type line \<noteq> DialogueBlank"
  then show "renderLine line = lineDiv line"
    by (simp add: renderLine_lineDiv)
next
  assume "type line = Empty \<or> type line = DialogueBlank"
  then show \<open>renderLine line = cu ''<div class="fountain-empty">&nbsp;</div>''\<close>
    by (auto simp: renderLine_def)
qed

theorem renderLine_html_witness:
  \<open>renderLine \<lparr>type = Centered, lineText = cu ''> THE END <'', rawText = cu ''> THE END <''\<rparr>
     = cu ''<div class="fountain-line fountain-centered">THE END</div>''
   \<and> renderLine \<lparr>type = Transition, lineText = cu ''> CUT & RUN'', rawText = cu ''> CUT & RUN''\<rparr>
     = cu ''<div class="fountain-line fountain-transition">CUT &amp; RUN</div>''
   \<and> renderLine \<lparr>type = SectionHeading 2, lineText = cu ''## ACT <1>'', rawText = cu ''## ACT <1>''\<rparr>
     = cu ''<div class="fountain-line fountain-section-heading-2">ACT &lt;1&gt;</div>''
   \<and> renderLine \<lparr>type = DialogueBlank, lineText = [], rawText = cu ''  ''\<rparr>
     = cu ''<div class="fountain-empty">&nbsp;</div>''\<close>
proof -
  let ?c = "\<lparr>type = Centered, lineText = cu ''> THE END <'', rawText = cu ''> THE END <''\<rparr>"
  let ?t = "\<lparr>type = Transition, lineText = cu ''> CUT & RUN'', rawText = cu ''> CUT & RUN''\<rparr>"
  let ?s = "\<lparr>type = SectionHeading 2, lineText = cu ''## ACT <1>'', rawText = cu ''## ACT <1>''\<rparr>"
  let ?b = "\<lparr>type = DialogueBlank, lineText = [], rawText = cu ''  ''\<rparr>"
  have "renderLine ?c = lineDiv ?c"
    using renderLine_html [of ?c] by simp
  moreover have "renderLine ?t = lineDiv ?t"
    using renderLine_html [of ?t] by simp
  moreover have "renderLine ?s = lineDiv ?s"
    using renderLine_html [of ?s] by simp
  moreover have "renderLine ?b = cu ''<div class=\"fountain-empty\">&nbsp;</div>''"
    using renderLine_html [of ?b] by simp
  moreover have \<open>lineDiv ?c = cu ''<div class="fountain-line fountain-centered">THE END</div>''\<close>
    by (simp add: lineDiv_def displayText_def stripLeadingGt_def stripTrailingLt_def
        startsWith_def endsWith_def trimEnd_def escapeChar_def ch_defs)
  moreover have \<open>lineDiv ?t = cu ''<div class="fountain-line fountain-transition">CUT &amp; RUN</div>''\<close>
    by (simp add: lineDiv_def displayText_def stripLeadingGt_def
        startsWith_def escapeChar_def ch_defs)
  moreover have \<open>lineDiv ?s
      = cu ''<div class="fountain-line fountain-section-heading-2">ACT &lt;1&gt;</div>''\<close>
    by (simp add: lineDiv_def displayText_def stripLeadingHashes_def isSectionHeading_def
        startsWith_def escapeChar_def ch_defs)
  ultimately show ?thesis by simp
qed

end
